theory Spec2Isabelle
  imports Main "HOL-Library.Log_Nat"
begin

section \<open>Python numbers\<close>

subsection \<open>Floats: IEEE 754 binary64, round to nearest, ties to even\<close>

text \<open>
  A Python float is a binary64 value. A finite one is modelled by the rational it denotes
  (the two zeros are identified: no operation of the program tells them apart), next to the
  two infinities and NaN. Every arithmetic result is the exact rational result rounded to
  the nearest double, ties to the even significand; 53 bits of significand, least normal
  exponent \<open>-1022\<close>, least quantum \<open>2 powi -1074\<close>, overflow to an infinity at \<open>2 powi 1024\<close>.
\<close>

definition pow2 :: "int \<Rightarrow> rat" where
  "pow2 e = power_int 2 e"

text \<open>\<open>ilog2 x\<close> is \<open>\<lfloor>log\<^sub>2 x\<rfloor>\<close> for \<open>x > 0\<close>, computed from bit lengths.\<close>

definition ilog2 :: "rat \<Rightarrow> int" where
  "ilog2 x = (if 1 \<le> x then bitlen \<lfloor>x\<rfloor> - 1 else - bitlen (\<lceil>1 / x\<rceil> - 1))"

definition round_half_even :: "rat \<Rightarrow> int" where
  "round_half_even x =
     (let f = \<lfloor>x\<rfloor>; d = x - of_int f
      in if d < 1 / 2 then f else if 1 / 2 < d then f + 1
         else if even f then f else f + 1)"

definition fexp :: "rat \<Rightarrow> int" where
  "fexp x = max (ilog2 \<bar>x\<bar>) (- 1022)"

text \<open>The spacing of the doubles in the binade of \<open>x\<close>.\<close>

definition quantum :: "rat \<Rightarrow> rat" where
  "quantum x = pow2 (fexp x - 52)"

definition rnd_val :: "rat \<Rightarrow> rat" where
  "rnd_val x = (if x = 0 then 0 else of_int (round_half_even (x / quantum x)) * quantum x)"

datatype double = Fin rat | PosInf | NegInf | NaN

definition rnd :: "rat \<Rightarrow> double" where
  "rnd x =
     (let y = rnd_val x
      in if pow2 1024 \<le> y then PosInf else if y \<le> - pow2 1024 then NegInf else Fin y)"

text \<open>A finite value is a double when rounding leaves it alone.\<close>

fun is_double :: "double \<Rightarrow> bool" where
  "is_double (Fin x) = (rnd x = Fin x)"
| "is_double _ = True"

fun fneg :: "double \<Rightarrow> double" where
  "fneg (Fin a) = Fin (- a)"
| "fneg PosInf = NegInf"
| "fneg NegInf = PosInf"
| "fneg NaN = NaN"

fun fadd :: "double \<Rightarrow> double \<Rightarrow> double" where
  "fadd (Fin a) (Fin b) = rnd (a + b)"
| "fadd NaN _ = NaN"
| "fadd _ NaN = NaN"
| "fadd PosInf NegInf = NaN"
| "fadd NegInf PosInf = NaN"
| "fadd PosInf _ = PosInf"
| "fadd _ PosInf = PosInf"
| "fadd NegInf _ = NegInf"
| "fadd _ NegInf = NegInf"

definition fsub :: "double \<Rightarrow> double \<Rightarrow> double" where
  "fsub a b = fadd a (fneg b)"

fun fsgn :: "double \<Rightarrow> int" where
  "fsgn (Fin a) = (if a = 0 then 0 else if 0 < a then 1 else - 1)"
| "fsgn PosInf = 1"
| "fsgn NegInf = - 1"
| "fsgn NaN = 0"

fun fmul :: "double \<Rightarrow> double \<Rightarrow> double" where
  "fmul (Fin a) (Fin b) = rnd (a * b)"
| "fmul NaN _ = NaN"
| "fmul _ NaN = NaN"
| "fmul x y =
     (let s = fsgn x * fsgn y
      in if s = 0 then NaN else if 0 < s then PosInf else NegInf)"

fun flt :: "double \<Rightarrow> double \<Rightarrow> bool" where
  "flt (Fin a) (Fin b) = (a < b)"
| "flt NaN _ = False"
| "flt _ NaN = False"
| "flt _ NegInf = False"
| "flt PosInf _ = False"
| "flt NegInf _ = True"
| "flt _ PosInf = True"

text \<open>A float literal of the source denotes the double nearest to its decimal value.\<close>

definition float_lit :: "rat \<Rightarrow> double" where
  "float_lit q = rnd q"

text \<open>What \<open>random.random()\<close> can return: a double in \<open>[0, 1)\<close>.\<close>

fun unit_draw :: "double \<Rightarrow> bool" where
  "unit_draw (Fin r) = (rnd r = Fin r \<and> 0 \<le> r \<and> r < 1)"
| "unit_draw _ = False"

subsection \<open>Numbers: unbounded ints and floats, with Python's coercions\<close>

datatype error = RuntimeError | OverflowError | KeyError

datatype pynum = PInt int | PFloat double

text \<open>
  An int meeting a float in \<open>+\<close>, \<open>-\<close> or \<open>*\<close> is converted to a float first, correctly
  rounded; an int too large for a finite double raises \<open>OverflowError\<close>.
\<close>

definition to_float :: "int \<Rightarrow> error + double" where
  "to_float n = (case rnd (of_int n) of Fin y \<Rightarrow> Inr (Fin y) | _ \<Rightarrow> Inl OverflowError)"

fun as_float :: "pynum \<Rightarrow> error + double" where
  "as_float (PInt n) = to_float n"
| "as_float (PFloat d) = Inr d"

definition float_op :: "(double \<Rightarrow> double \<Rightarrow> double) \<Rightarrow> pynum \<Rightarrow> pynum \<Rightarrow> error + pynum" where
  "float_op f a b =
     (case as_float a of
        Inl e \<Rightarrow> Inl e
      | Inr x \<Rightarrow> (case as_float b of Inl e \<Rightarrow> Inl e | Inr y \<Rightarrow> Inr (PFloat (f x y))))"

fun py_add :: "pynum \<Rightarrow> pynum \<Rightarrow> error + pynum" where
  "py_add (PInt a) (PInt b) = Inr (PInt (a + b))"
| "py_add a b = float_op fadd a b"

fun py_sub :: "pynum \<Rightarrow> pynum \<Rightarrow> error + pynum" where
  "py_sub (PInt a) (PInt b) = Inr (PInt (a - b))"
| "py_sub a b = float_op fsub a b"

fun py_mul :: "pynum \<Rightarrow> pynum \<Rightarrow> error + pynum" where
  "py_mul (PInt a) (PInt b) = Inr (PInt (a * b))"
| "py_mul a b = float_op fmul a b"

text \<open>The numbers that take part in float arithmetic without an \<open>OverflowError\<close>.\<close>

definition float_convertible :: "pynum \<Rightarrow> bool" where
  "float_convertible a = (case as_float a of Inl _ \<Rightarrow> False | Inr _ \<Rightarrow> True)"

text \<open>Comparisons never convert: an int and a float are compared by their exact values.\<close>

fun exact :: "pynum \<Rightarrow> double" where
  "exact (PInt n) = Fin (of_int n)"
| "exact (PFloat d) = d"

definition py_lt :: "pynum \<Rightarrow> pynum \<Rightarrow> bool" where
  "py_lt a b = flt (exact a) (exact b)"

definition py_gt :: "pynum \<Rightarrow> pynum \<Rightarrow> bool" where
  "py_gt a b = py_lt b a"

text \<open>\<open>a >= b\<close> on numbers; false as soon as one side is NaN.\<close>

definition py_ge :: "pynum \<Rightarrow> pynum \<Rightarrow> bool" where
  "py_ge a b = (py_lt b a \<or> (exact a = exact b \<and> exact a \<noteq> NaN))"

text \<open>The builtin \<open>max(a, b)\<close> keeps \<open>a\<close> unless \<open>b > a\<close>.\<close>

definition py_max :: "pynum \<Rightarrow> pynum \<Rightarrow> pynum" where
  "py_max a b = (if py_gt b a then b else a)"

text \<open>The numbers a run can hold: any int, any double.\<close>

fun is_number :: "pynum \<Rightarrow> bool" where
  "is_number (PInt n) = True"
| "is_number (PFloat d) = is_double d"

type_synonym pydict = "string \<rightharpoonup> pynum"

section \<open>The probability sampler\<close>

text \<open>
  \<open>select_from_dist\<close> with the value drawn by \<open>random.random()\<close> as the parameter
  \<open>ranreal\<close>. The dictionary is the list of its items in insertion order, which is the
  order the loop visits them in.
\<close>

fun select_from_dist :: "pynum \<Rightarrow> ('a \<times> pynum) list \<Rightarrow> error + 'a" where
  "select_from_dist ranreal [] = Inl RuntimeError"
| "select_from_dist ranreal ((item, prob) # rest) =
     (if py_lt ranreal prob then Inr item
      else (case py_sub ranreal prob of
              Inl e \<Rightarrow> Inl e
            | Inr ranreal' \<Rightarrow> select_from_dist ranreal' rest))"

text \<open>
  What the claims about distributions speak of: the exact total of the probabilities, the
  total a float accumulator reaches adding them in order, and the distributions whose
  probabilities are non-negative finite doubles.
\<close>

fun fin_val :: "double \<Rightarrow> rat" where
  "fin_val (Fin x) = x"
| "fin_val _ = 0"

definition prob_total :: "('a \<times> pynum) list \<Rightarrow> rat" where
  "prob_total item_prob_dist = sum_list (map (\<lambda>(item, prob). fin_val (exact prob)) item_prob_dist)"

definition float_total :: "('a \<times> pynum) list \<Rightarrow> double" where
  "float_total item_prob_dist = foldl fadd (Fin 0) (map (\<lambda>(item, prob). exact prob) item_prob_dist)"

definition valid_probs :: "('a \<times> pynum) list \<Rightarrow> bool" where
  "valid_probs item_prob_dist =
     list_all (\<lambda>(item, prob). case prob of PFloat (Fin p) \<Rightarrow> 0 \<le> p \<and> rnd p = Fin p | _ \<Rightarrow> False) item_prob_dist"

section \<open>The environment\<close>

record smartphone_environment =
  time :: int
  stock :: pynum
  price :: pynum
  stock_history :: "pynum list"
  price_history :: "pynum list"

definition price_delta :: "int list" where
  "price_delta = [10, - 20, 5, - 15, 0, 25, - 30, 20, - 5, 0]"

definition daily_sales_dist :: "(int \<times> pynum) list" where
  "daily_sales_dist =
     [(3, PFloat (float_lit (2 / 10))), (5, PFloat (float_lit (3 / 10))),
      (7, PFloat (float_lit (3 / 10))), (10, PFloat (float_lit (2 / 10)))]"

definition SmartphoneEnvironment_init :: smartphone_environment where
  "SmartphoneEnvironment_init =
     \<lparr>time = 0, stock = PInt 50, price = PInt 600,
      stock_history = [PInt 50], price_history = [PInt 600]\<rparr>"

definition make_percept :: "smartphone_environment \<Rightarrow> pydict" where
  "make_percept env = [''price'' \<mapsto> price env, ''stock'' \<mapsto> stock env]"

definition initial_percept :: "smartphone_environment \<Rightarrow> pydict" where
  "initial_percept env = make_percept env"

text \<open>
  \<open>do_action\<close>, with the two random draws of the call as parameters: \<open>ranreal\<close> is what
  \<open>random.random()\<close> returns inside the sampler, \<open>noise\<close> what \<open>random.gauss(0, noise_sd)\<close>
  returns. The result is the outcome of the call (the exception raised or the percept
  returned) and the environment as the call leaves it: an exception keeps the assignments
  made before it.
\<close>

definition do_action ::
  "double \<times> double \<Rightarrow> pydict \<Rightarrow> smartphone_environment \<Rightarrow> (error + pydict) \<times> smartphone_environment"
where
  "do_action draws action env =
     (case select_from_dist (PFloat (fst draws)) daily_sales_dist of
        Inl e \<Rightarrow> (Inl e, env)
      | Inr daily_sales \<Rightarrow>
          let bought = (case action ''buy'' of None \<Rightarrow> PInt 0 | Some b \<Rightarrow> b) in
          (case py_add (stock env) bought of
             Inl e \<Rightarrow> (Inl e, env)
           | Inr s1 \<Rightarrow>
               (case py_sub s1 (PInt daily_sales) of
                  Inl e \<Rightarrow> (Inl e, env)
                | Inr s2 \<Rightarrow>
                    let env1 = env\<lparr>stock := py_max (PInt 0) s2\<rparr>;
                        env2 = env1\<lparr>time := time env1 + 1\<rparr>
                    in (case py_add (PInt (price_delta ! nat (time env2 mod int (length price_delta))))
                               (PFloat (snd draws)) of
                          Inl e \<Rightarrow> (Inl e, env2)
                        | Inr d \<Rightarrow>
                            (case py_add (price env2) d of
                               Inl e \<Rightarrow> (Inl e, env2)
                             | Inr p \<Rightarrow>
                                 let env3 = env2\<lparr>price := p\<rparr>;
                                     env4 = env3\<lparr>stock_history := stock_history env3 @ [stock env3]\<rparr>;
                                     env5 = env4\<lparr>price_history := price_history env4 @ [price env4]\<rparr>
                                 in (Inr (make_percept env5), env5))))))"

text \<open>A sequence of calls on one environment, whatever each call's outcome.\<close>

fun do_actions ::
  "(((double \<times> double) \<times> pydict) list) \<Rightarrow> smartphone_environment \<Rightarrow> smartphone_environment"
where
  "do_actions [] env = env"
| "do_actions ((draws, action) # rest) env = do_actions rest (snd (do_action draws action env))"

text \<open>The two histories grow together, one entry per time step.\<close>

definition history_inv :: "smartphone_environment \<Rightarrow> bool" where
  "history_inv env =
     (length (price_history env) = length (stock_history env) \<and>
      int (length (stock_history env)) = time env + 1)"

section \<open>The agent\<close>

record smartphone_agent =
  average_price :: pynum
  buy_history :: "int list"
  total_spent :: pynum

definition SmartphoneAgent_init :: smartphone_agent where
  "SmartphoneAgent_init = \<lparr>average_price = PInt 600, buy_history = [], total_spent = PInt 0\<rparr>"

definition select_action ::
  "pydict \<Rightarrow> smartphone_agent \<Rightarrow> (error + pydict) \<times> smartphone_agent"
where
  "select_action percept ag =
     (case percept ''price'' of
        None \<Rightarrow> (Inl KeyError, ag)
      | Some current_price \<Rightarrow>
     (case percept ''stock'' of
        None \<Rightarrow> (Inl KeyError, ag)
      | Some current_stock \<Rightarrow>
     (case py_sub current_price (average_price ag) of
        Inl e \<Rightarrow> (Inl e, ag)
      | Inr diff \<Rightarrow>
     (case py_mul diff (PFloat (float_lit (1 / 10))) of
        Inl e \<Rightarrow> (Inl e, ag)
      | Inr step \<Rightarrow>
     (case py_add (average_price ag) step of
        Inl e \<Rightarrow> (Inl e, ag)
      | Inr avg \<Rightarrow>
          let ag1 = ag\<lparr>average_price := avg\<rparr> in
     (case py_mul (PFloat (float_lit (8 / 10))) (average_price ag1) of
        Inl e \<Rightarrow> (Inl e, ag1)
      | Inr threshold \<Rightarrow>
          let tobuy =
            (if py_lt current_price threshold \<and> py_gt current_stock (PInt 10) then 15
             else if py_lt current_stock (PInt 10) then 10
             else 0)
          in
     (case py_mul (PInt tobuy) current_price of
        Inl e \<Rightarrow> (Inl e, ag1)
      | Inr cost \<Rightarrow>
     (case py_add (total_spent ag1) cost of
        Inl e \<Rightarrow> (Inl e, ag1)
      | Inr spent \<Rightarrow>
          let ag2 = ag1\<lparr>total_spent := spent\<rparr>;
              ag3 = ag2\<lparr>buy_history := buy_history ag2 @ [tobuy]\<rparr>
          in (Inr [''buy'' \<mapsto> PInt tobuy], ag3)))))))))"

text \<open>The price of a percept when it is an int (0 otherwise), and the percepts whose price is
  a finite non-negative number.\<close>

definition int_price :: "pydict \<Rightarrow> int" where
  "int_price pct = (case pct ''price'' of Some (PInt n) \<Rightarrow> n | _ \<Rightarrow> 0)"

definition price_ok :: "pydict \<Rightarrow> bool" where
  "price_ok pct =
     (case pct ''price'' of
        None \<Rightarrow> False
      | Some cp \<Rightarrow> (case exact cp of Fin p \<Rightarrow> 0 \<le> p | _ \<Rightarrow> False))"

text \<open>The values of \<open>total_spent\<close> before the first call and after each call of a sequence.\<close>

fun totals :: "pydict list \<Rightarrow> smartphone_agent \<Rightarrow> pynum list" where
  "totals [] ag = [total_spent ag]"
| "totals (pct # rest) ag = total_spent ag # totals rest (snd (select_action pct ag))"

text \<open>Each value is \<open>>=\<close> the one before it.\<close>

fun nondecreasing :: "pynum list \<Rightarrow> bool" where
  "nondecreasing (a # b # rest) = (py_ge b a \<and> nondecreasing (b # rest))"
| "nondecreasing _ = True"

text \<open>
  The totals a run with non-negative prices reaches: an int that a float holds exactly,
  with room \<open>b\<close> for the int costs still to come, or a non-negative double or \<open>inf\<close>.
\<close>

fun spent_inv :: "int \<Rightarrow> pynum \<Rightarrow> bool" where
  "spent_inv b (PInt n) = (0 \<le> n \<and> n + b < 2 ^ 53)"
| "spent_inv b (PFloat (Fin x)) = (0 \<le> x \<and> rnd x = Fin x)"
| "spent_inv b (PFloat PosInf) = True"
| "spent_inv b (PFloat _) = False"

section \<open>The simulation driver\<close>

record simulation =
  agent :: smartphone_agent
  environment :: smartphone_environment
  percept :: pydict

definition Simulation_init :: "smartphone_agent \<Rightarrow> smartphone_environment \<Rightarrow> simulation" where
  "Simulation_init ag env = \<lparr>agent = ag, environment = env, percept = initial_percept env\<rparr>"

text \<open>
  The loop of \<open>run\<close> over \<open>range(steps)\<close>; \<open>rng step\<close> gives the two draws of the
  environment in iteration \<open>step\<close>. An exception ends the loop and is returned with the
  state reached.
\<close>

fun run_loop ::
  "(nat \<Rightarrow> double \<times> double) \<Rightarrow> nat list \<Rightarrow> simulation \<Rightarrow> error option \<times> simulation"
where
  "run_loop rng [] sim = (None, sim)"
| "run_loop rng (step # steps) sim =
     (case select_action (percept sim) (agent sim) of
        (Inl e, ag) \<Rightarrow> (Some e, sim\<lparr>agent := ag\<rparr>)
      | (Inr action, ag) \<Rightarrow>
          (case do_action (rng step) action (environment sim) of
             (Inl e, env) \<Rightarrow> (Some e, sim\<lparr>agent := ag, environment := env\<rparr>)
           | (Inr p, env) \<Rightarrow>
               run_loop rng steps (sim\<lparr>agent := ag, environment := env, percept := p\<rparr>)))"

definition run :: "(nat \<Rightarrow> double \<times> double) \<Rightarrow> int \<Rightarrow> simulation \<Rightarrow> error option \<times> simulation" where
  "run rng steps sim = run_loop rng [0..<nat steps] sim"

section \<open>Properties of rounding\<close>

lemma pow2_pos: "0 < pow2 e"
  by (simp add: pow2_def power_int_def)

lemma pow2_add: "pow2 (a + b) = pow2 a * pow2 b"
  by (simp add: pow2_def power_int_add)

lemma pow2_nat: "0 \<le> e \<Longrightarrow> pow2 e = 2 ^ nat e"
  by (simp add: pow2_def power_int_def)

lemma pow2_neg: "pow2 (- e) = 1 / pow2 e"
  by (simp add: pow2_def power_int_minus_divide)

lemma pow2_mono: "a \<le> b \<Longrightarrow> pow2 a \<le> pow2 b"
  by (simp add: pow2_def power_int_increasing)

lemma pow2_strict_mono: "a < b \<Longrightarrow> pow2 a < pow2 b"
  by (simp add: pow2_def power_int_strict_increasing)

lemma pow2_less_iff: "pow2 a < pow2 b \<longleftrightarrow> a < b"
  using pow2_strict_mono [of a b] pow2_mono [of b a] by (cases "a < b") auto

lemma pow2_le_iff: "pow2 a \<le> pow2 b \<longleftrightarrow> a \<le> b"
  using pow2_strict_mono [of b a] pow2_mono [of a b] by (cases "a \<le> b") auto

lemma ilog2_bounds_ge1:
  assumes "1 \<le> x"
  shows "pow2 (ilog2 x) \<le> x \<and> x < pow2 (ilog2 x + 1)"
proof -
  let ?n = "\<lfloor>x\<rfloor>"
  have n: "0 < ?n" using assms by simp
  from bitlen_bounds [OF n]
  have lo: "2 ^ nat (bitlen ?n - 1) \<le> ?n" and hi: "?n < 2 ^ nat (bitlen ?n)" by auto
  have b1: "1 \<le> bitlen ?n" using n by (simp add: bitlen_alt_def)
  have "(of_int (2 ^ nat (bitlen ?n - 1)) :: rat) \<le> of_int ?n"
    using lo by (simp only: of_int_le_iff)
  also have "\<dots> \<le> x" by simp
  finally have l: "pow2 (bitlen ?n - 1) \<le> x"
    using b1 by (simp add: pow2_nat)
  have "x < of_int (2 ^ nat (bitlen ?n))"
    using hi by (simp add: floor_less_iff)
  then have h: "x < pow2 (bitlen ?n)"
    using b1 by (simp add: pow2_nat)
  show ?thesis using l h assms by (simp add: ilog2_def)
qed

lemma ilog2_bounds_lt1:
  assumes "0 < x" "x < 1"
  shows "pow2 (ilog2 x) \<le> x \<and> x < pow2 (ilog2 x + 1)"
proof -
  let ?y = "1 / x"
  let ?n = "\<lceil>?y\<rceil> - 1"
  have y1: "1 < ?y" using assms by simp
  then have "2 \<le> \<lceil>?y\<rceil>" by (simp add: le_ceiling_iff)
  then have n: "0 < ?n" by simp
  from bitlen_bounds [OF n]
  have lo: "2 ^ nat (bitlen ?n - 1) \<le> ?n" and hi: "?n < 2 ^ nat (bitlen ?n)" by auto
  have b1: "1 \<le> bitlen ?n" using n by (simp add: bitlen_alt_def)
  have ny: "of_int ?n < ?y" using ceiling_correct [of ?y] by simp
  have "(of_int (2 ^ nat (bitlen ?n - 1)) :: rat) \<le> of_int ?n"
    using lo by (simp only: of_int_le_iff)
  then have l: "pow2 (bitlen ?n - 1) < ?y"
    using ny b1 by (simp add: pow2_nat)
  have "\<lceil>?y\<rceil> \<le> 2 ^ nat (bitlen ?n)" using hi by simp
  then have "?y \<le> of_int (2 ^ nat (bitlen ?n))"
    by (simp only: ceiling_le_iff)
  then have h: "?y \<le> pow2 (bitlen ?n)"
    using b1 by (simp add: pow2_nat)
  have p1: "pow2 (- bitlen ?n) \<le> x"
    using h assms pow2_pos [of "bitlen ?n"] by (simp add: pow2_neg field_simps)
  have "x * pow2 (bitlen ?n - 1) < 1"
    using l assms by (simp add: field_simps)
  then have "x < 1 / pow2 (bitlen ?n - 1)"
    using pow2_pos [of "bitlen ?n - 1"] by (simp only: pos_less_divide_eq)
  also have "1 / pow2 (bitlen ?n - 1) = pow2 (- (bitlen ?n - 1))"
    by (simp only: pow2_neg)
  finally have p2: "x < pow2 (- bitlen ?n + 1)" by simp
  show ?thesis using p1 p2 assms by (simp add: ilog2_def)
qed

lemma ilog2_bounds:
  "0 < x \<Longrightarrow> pow2 (ilog2 x) \<le> x \<and> x < pow2 (ilog2 x + 1)"
  using ilog2_bounds_ge1 [of x] ilog2_bounds_lt1 [of x] by (cases "1 \<le> x") auto

lemma ilog2_unique:
  assumes "0 < x" "pow2 e \<le> x" "x < pow2 (e + 1)"
  shows "ilog2 x = e"
proof -
  from ilog2_bounds [OF assms(1)]
  have a: "pow2 (ilog2 x) \<le> x" and b: "x < pow2 (ilog2 x + 1)" by auto
  have "pow2 e < pow2 (ilog2 x + 1)" using assms(2) b by simp
  then have 1: "e < ilog2 x + 1" by (simp add: pow2_less_iff)
  have "pow2 (ilog2 x) < pow2 (e + 1)" using a assms(3) by simp
  then have 2: "ilog2 x < e + 1" by (simp add: pow2_less_iff)
  show ?thesis using 1 2 by simp
qed

lemma rhe_of_int: "round_half_even (of_int n) = n"
  by (simp add: round_half_even_def)

lemma rhe_bounds: "\<lfloor>x\<rfloor> \<le> round_half_even x \<and> round_half_even x \<le> \<lfloor>x\<rfloor> + 1"
  by (simp add: round_half_even_def Let_def)

lemma rhe_mono:
  assumes "x \<le> y"
  shows "round_half_even x \<le> round_half_even y"
proof (cases "\<lfloor>x\<rfloor> = \<lfloor>y\<rfloor>")
  case True
  then show ?thesis using assms by (auto simp add: round_half_even_def Let_def)
next
  case False
  then have "\<lfloor>x\<rfloor> + 1 \<le> \<lfloor>y\<rfloor>" using floor_mono [OF assms] by simp
  then show ?thesis using rhe_bounds [of x] rhe_bounds [of y] by linarith
qed

lemma rhe_minus: "round_half_even (- x) = - round_half_even x"
proof (cases "x \<in> \<int>")
  case True
  then obtain n where "x = of_int n" by (auto elim: Ints_cases)
  then show ?thesis
    by (simp add: rhe_of_int flip: of_int_minus)
next
  case False
  then have ne: "x \<noteq> of_int \<lfloor>x\<rfloor>" by (metis Ints_of_int)
  then have "\<lceil>x\<rceil> = \<lfloor>x\<rfloor> + 1" by (simp add: ceiling_altdef)
  then have fl: "\<lfloor>- x\<rfloor> = - \<lfloor>x\<rfloor> - 1" by (simp add: ceiling_def)
  have "of_int \<lfloor>x\<rfloor> < x" using ne of_int_floor_le [of x] by order
  then show ?thesis
    unfolding round_half_even_def Let_def fl
    by (auto simp add: algebra_simps)
qed

lemma quantum_fexp: "quantum x = pow2 (fexp x - 52)"
  by (simp add: quantum_def)

lemma quantum_pos: "0 < quantum x"
  by (simp add: quantum_def pow2_pos)

lemma quantum_minus: "quantum (- x) = quantum x"
  by (simp add: quantum_def fexp_def)

lemma rnd_val_minus: "rnd_val (- x) = - rnd_val x"
  by (simp add: rnd_val_def quantum_minus rhe_minus)

lemma rnd_val_nonneg:
  assumes "0 \<le> x"
  shows "0 \<le> rnd_val x"
proof -
  have "0 \<le> x / quantum x" using assms quantum_pos [of x] by simp
  from rhe_mono [OF this] have "0 \<le> round_half_even (x / quantum x)"
    using rhe_of_int [of 0] by simp
  then show ?thesis using quantum_pos [of x] by (simp add: rnd_val_def)
qed

lemma ilog2_mono:
  assumes "0 < x" "x \<le> y"
  shows "ilog2 x \<le> ilog2 y"
proof -
  have y: "0 < y" using assms by simp
  have "pow2 (ilog2 x) \<le> x" using ilog2_bounds [OF assms(1)] by simp
  also have "x \<le> y" by fact
  also have "y < pow2 (ilog2 y + 1)" using ilog2_bounds [OF y] by simp
  finally have "ilog2 x < ilog2 y + 1" by (simp add: pow2_less_iff)
  then show ?thesis by simp
qed

lemma fexp_mono: "0 < x \<Longrightarrow> x \<le> y \<Longrightarrow> fexp x \<le> fexp y"
  using ilog2_mono [of x y] by (simp add: fexp_def)

lemma less_pow2_fexp:
  assumes "0 < x"
  shows "x < pow2 (fexp x + 1)"
proof -
  have "x < pow2 (ilog2 x + 1)" using ilog2_bounds [OF assms] by simp
  also have "\<dots> \<le> pow2 (fexp x + 1)"
    using assms by (simp add: pow2_le_iff fexp_def)
  finally show ?thesis .
qed

lemma pow2_div: "pow2 a / pow2 b = pow2 (a - b)"
  using pow2_add [of "a - b" b] pow2_pos [of b] by (simp add: field_simps)

lemma pow2_53: "pow2 53 = of_int (2 ^ 53)"
  by (simp add: pow2_nat)

lemma pow2_52: "pow2 52 = of_int (2 ^ 52)"
  by (simp add: pow2_nat)

lemma pow2_53_mult: "of_int (2 ^ 53) * pow2 (e - 52) = pow2 (e + 1)"
proof -
  have "e + 1 = 53 + (e - 52)" by simp
  then have "pow2 (e + 1) = pow2 (53 + (e - 52))" by (rule arg_cong)
  also have "\<dots> = pow2 53 * pow2 (e - 52)" by (rule pow2_add)
  finally show ?thesis by (simp only: pow2_53)
qed

lemma pow2_52_mult: "of_int (2 ^ 52) * pow2 (e - 52) = pow2 e"
proof -
  have "e = 52 + (e - 52)" by simp
  then have "pow2 e = pow2 (52 + (e - 52))" by (rule arg_cong)
  also have "\<dots> = pow2 52 * pow2 (e - 52)" by (rule pow2_add)
  finally show ?thesis by (simp only: pow2_52)
qed

lemma rnd_val_le_pow2:
  assumes "0 < x"
  shows "rnd_val x \<le> pow2 (fexp x + 1)"
proof -
  let ?q = "quantum x"
  have "x / ?q \<le> pow2 (fexp x + 1) / ?q"
    using less_pow2_fexp [OF assms] quantum_pos [of x] by (simp add: divide_right_mono)
  also have "\<dots> = of_int (2 ^ 53)"
    by (simp only: quantum_fexp pow2_div pow2_53 [symmetric]) simp
  finally have "round_half_even (x / ?q) \<le> 2 ^ 53"
    using rhe_mono [of "x / ?q" "of_int (2 ^ 53)"] by (simp only: rhe_of_int)
  then have "(of_int (round_half_even (x / ?q)) :: rat) \<le> of_int (2 ^ 53)"
    by (simp only: of_int_le_iff)
  then have "of_int (round_half_even (x / ?q)) * ?q \<le> of_int (2 ^ 53) * ?q"
    using quantum_pos [of x] by (simp only: mult_le_cancel_right) simp
  also have "of_int (2 ^ 53) * ?q = pow2 (fexp x + 1)"
    by (simp only: quantum_fexp pow2_53_mult)
  finally show ?thesis using assms by (simp add: rnd_val_def)
qed

lemma rnd_val_ge_pow2:
  assumes "0 < x" "- 1022 \<le> ilog2 x"
  shows "pow2 (fexp x) \<le> rnd_val x"
proof -
  let ?q = "quantum x"
  have fe: "fexp x = ilog2 x" using assms by (simp add: fexp_def)
  have "pow2 (fexp x) \<le> x" using ilog2_bounds [OF assms(1)] fe by simp
  then have "pow2 (fexp x) / ?q \<le> x / ?q"
    using quantum_pos [of x] by (simp add: divide_right_mono)
  moreover have "pow2 (fexp x) / ?q = of_int (2 ^ 52)"
    by (simp only: quantum_fexp pow2_div pow2_52 [symmetric]) simp
  ultimately have "of_int (2 ^ 52) \<le> x / ?q" by simp
  then have "2 ^ 52 \<le> round_half_even (x / ?q)"
    using rhe_mono [of "of_int (2 ^ 52)" "x / ?q"] by (simp only: rhe_of_int)
  then have "(of_int (2 ^ 52) :: rat) \<le> of_int (round_half_even (x / ?q))"
    by (simp only: of_int_le_iff)
  then have "of_int (2 ^ 52) * ?q \<le> of_int (round_half_even (x / ?q)) * ?q"
    using quantum_pos [of x] by (simp only: mult_le_cancel_right) simp
  moreover have "of_int (2 ^ 52) * ?q = pow2 (fexp x)"
    by (simp only: quantum_fexp pow2_52_mult)
  ultimately show ?thesis using assms by (simp add: rnd_val_def)
qed

lemma rnd_val_mono_pos:
  assumes "0 < x" "x \<le> y"
  shows "rnd_val x \<le> rnd_val y"
proof (cases "fexp x = fexp y")
  case True
  then have q: "quantum y = quantum x" by (simp add: quantum_fexp)
  have "x / quantum x \<le> y / quantum x"
    using assms quantum_pos [of x] by (simp add: divide_right_mono)
  from rhe_mono [OF this]
  have "(of_int (round_half_even (x / quantum x)) :: rat) \<le> of_int (round_half_even (y / quantum x))"
    by (simp only: of_int_le_iff)
  then have "of_int (round_half_even (x / quantum x)) * quantum x
      \<le> of_int (round_half_even (y / quantum x)) * quantum x"
    using quantum_pos [of x] by (simp only: mult_le_cancel_right) simp
  then show ?thesis using assms q by (simp add: rnd_val_def)
next
  case False
  have y: "0 < y" using assms by simp
  have lt: "fexp x < fexp y" using False fexp_mono [OF assms] by simp
  then have "- 1022 < fexp y" by (simp add: fexp_def)
  then have iy: "- 1022 \<le> ilog2 y" using y by (simp add: fexp_def)
  have "rnd_val x \<le> pow2 (fexp x + 1)" by (rule rnd_val_le_pow2 [OF assms(1)])
  also have "\<dots> \<le> pow2 (fexp y)" using lt by (simp add: pow2_le_iff)
  also have "\<dots> \<le> rnd_val y" by (rule rnd_val_ge_pow2 [OF y iy])
  finally show ?thesis .
qed

lemma rnd_val_mono:
  assumes "x \<le> y"
  shows "rnd_val x \<le> rnd_val y"
proof -
  consider "0 < x" | "x \<le> 0" "0 \<le> y" | "y < 0" by linarith
  then show ?thesis
  proof cases
    case 1
    then show ?thesis using assms by (rule rnd_val_mono_pos)
  next
    case 2
    have "rnd_val x \<le> 0" using rnd_val_nonneg [of "- x"] 2 by (simp add: rnd_val_minus)
    also have "0 \<le> rnd_val y" using 2 by (simp add: rnd_val_nonneg)
    finally show ?thesis .
  next
    case 3
    have "rnd_val (- y) \<le> rnd_val (- x)"
      using 3 assms by (intro rnd_val_mono_pos) simp_all
    then show ?thesis by (simp add: rnd_val_minus)
  qed
qed

lemma rnd_val_exact:
  assumes "x / quantum x = of_int n"
  shows "rnd_val x = x"
proof -
  have "of_int n * quantum x = x"
    using assms quantum_pos [of x] by (simp add: field_simps)
  then show ?thesis using assms by (simp add: rnd_val_def rhe_of_int)
qed

lemma rnd_val_normal:
  assumes "pow2 e \<le> \<bar>x\<bar>" "\<bar>x\<bar> < pow2 (e + 1)" "- 1022 \<le> e"
  shows "rnd_val x = of_int (round_half_even (x / pow2 (e - 52))) * pow2 (e - 52)"
proof -
  have pos: "0 < \<bar>x\<bar>" using assms(1) pow2_pos [of e] by linarith
  have "ilog2 \<bar>x\<bar> = e" using pos assms(1,2) by (rule ilog2_unique)
  then have "quantum x = pow2 (e - 52)" using assms(3) by (simp add: quantum_def fexp_def)
  then show ?thesis using pos by (simp add: rnd_val_def)
qed

lemma rnd_val_subnormal:
  assumes "\<bar>x\<bar> < pow2 (- 1022)"
  shows "rnd_val x = of_int (round_half_even (x / pow2 (- 1074))) * pow2 (- 1074)"
proof (cases "x = 0")
  case True
  then show ?thesis by (simp add: rnd_val_def rhe_of_int [of 0, simplified])
next
  case False
  then have pos: "0 < \<bar>x\<bar>" by simp
  have "pow2 (ilog2 \<bar>x\<bar>) \<le> \<bar>x\<bar>" using ilog2_bounds [OF pos] by simp
  then have "pow2 (ilog2 \<bar>x\<bar>) < pow2 (- 1022)" using assms by simp
  then have "ilog2 \<bar>x\<bar> < - 1022" by (simp only: pow2_less_iff)
  then have "quantum x = pow2 (- 1074)" by (simp add: quantum_def fexp_def)
  then show ?thesis using False by (simp add: rnd_val_def)
qed

lemma fexp_minus: "fexp (- x) = fexp x"
  by (simp add: fexp_def)

lemma abs_rnd_val: "\<bar>rnd_val x\<bar> = rnd_val \<bar>x\<bar>"
proof (cases "0 \<le> x")
  case True
  then show ?thesis using rnd_val_nonneg [of x] by simp
next
  case False
  then have "0 \<le> rnd_val (- x)" by (intro rnd_val_nonneg) simp
  then show ?thesis using False by (simp add: rnd_val_minus)
qed

lemma abs_rnd_val_le:
  assumes "x \<noteq> 0"
  shows "\<bar>rnd_val x\<bar> \<le> pow2 (fexp x + 1)"
proof -
  have "rnd_val \<bar>x\<bar> \<le> pow2 (fexp \<bar>x\<bar> + 1)"
    using assms by (intro rnd_val_le_pow2) simp
  then show ?thesis by (simp add: abs_rnd_val fexp_def)
qed

lemma rnd_Fin:
  assumes "\<bar>rnd_val x\<bar> < pow2 1024"
  shows "rnd x = Fin (rnd_val x)"
  using assms by (auto simp add: rnd_def Let_def)

lemma rnd_zero: "rnd 0 = Fin 0"
  using pow2_pos [of 1024] by (simp add: rnd_def rnd_val_def)

lemma rnd_normal:
  assumes "pow2 e \<le> \<bar>x\<bar>" "\<bar>x\<bar> < pow2 (e + 1)" "- 1022 \<le> e" "e \<le> 1022"
  shows "rnd x = Fin (of_int (round_half_even (x / pow2 (e - 52))) * pow2 (e - 52))"
proof -
  have pos: "0 < \<bar>x\<bar>" using assms(1) pow2_pos [of e] by linarith
  have "ilog2 \<bar>x\<bar> = e" using pos assms(1,2) by (rule ilog2_unique)
  then have fe: "fexp x = e" using assms(3) by (simp add: fexp_def)
  have "\<bar>rnd_val x\<bar> \<le> pow2 (e + 1)" using abs_rnd_val_le [of x] pos fe by auto
  also have "\<dots> < pow2 1024" using assms(4) by (simp add: pow2_less_iff)
  finally have "rnd x = Fin (rnd_val x)" by (rule rnd_Fin)
  then show ?thesis using rnd_val_normal [OF assms(1-3)] by simp
qed

lemma pow2_of_int: "0 \<le> e \<Longrightarrow> pow2 e = of_int (2 ^ nat e)"
  by (simp add: pow2_nat)

lemma rnd_val_dyadic:
  assumes "\<bar>m\<bar> < 2 ^ 53" "- 1074 \<le> k"
  shows "rnd_val (of_int m * pow2 k) = of_int m * pow2 k"
proof (cases "m = 0")
  case True
  then show ?thesis by (simp add: rnd_val_def)
next
  case False
  let ?x = "of_int m * pow2 k :: rat"
  have x0: "0 < \<bar>?x\<bar>" using False pow2_pos [of k] by simp
  have "\<bar>?x\<bar> = of_int \<bar>m\<bar> * pow2 k" using pow2_pos [of k] by (simp add: abs_mult)
  also have "\<dots> < of_int (2 ^ 53) * pow2 k"
    using assms(1) pow2_pos [of k] by (simp only: mult_less_cancel_right of_int_less_iff) simp
  also have "\<dots> = pow2 (53 + k)" by (simp only: pow2_add pow2_53)
  finally have "pow2 (ilog2 \<bar>?x\<bar>) < pow2 (53 + k)"
    using ilog2_bounds [OF x0] by simp
  then have "ilog2 \<bar>?x\<bar> < 53 + k" by (simp only: pow2_less_iff)
  then have le: "0 \<le> k - (fexp ?x - 52)" using assms(2) by (simp add: fexp_def)
  have "?x / quantum ?x = of_int m * (pow2 k / pow2 (fexp ?x - 52))"
    by (simp add: quantum_def)
  also have "\<dots> = of_int m * pow2 (k - (fexp ?x - 52))" by (simp only: pow2_div)
  also have "\<dots> = of_int (m * 2 ^ nat (k - (fexp ?x - 52)))"
    by (simp only: pow2_of_int [OF le] of_int_mult)
  finally show ?thesis by (rule rnd_val_exact)
qed

lemma rnd_dyadic:
  assumes "\<bar>m\<bar> < 2 ^ 53" "- 1074 \<le> k" "k \<le> 971"
  shows "rnd (of_int m * pow2 k) = Fin (of_int m * pow2 k)"
proof -
  let ?x = "of_int m * pow2 k :: rat"
  have "\<bar>?x\<bar> = of_int \<bar>m\<bar> * pow2 k" using pow2_pos [of k] by (simp add: abs_mult)
  also have "\<dots> < of_int (2 ^ 53) * pow2 k"
    using assms(1) pow2_pos [of k] by (simp only: mult_less_cancel_right of_int_less_iff) simp
  also have "\<dots> = pow2 (53 + k)" by (simp only: pow2_add pow2_53)
  also have "\<dots> \<le> pow2 1024" using assms(3) by (simp add: pow2_le_iff)
  finally have "\<bar>rnd_val ?x\<bar> < pow2 1024"
    by (simp only: rnd_val_dyadic [OF assms(1,2)])
  then show ?thesis by (simp only: rnd_Fin rnd_val_dyadic [OF assms(1,2)])
qed

lemma rnd_of_int:
  assumes "\<bar>n\<bar> < 2 ^ 53"
  shows "rnd (of_int n) = Fin (of_int n)"
  using rnd_dyadic [OF assms, of 0] by (simp add: pow2_def)

lemma to_float_small: "\<bar>n\<bar> < 2 ^ 53 \<Longrightarrow> to_float n = Inr (Fin (of_int n))"
  by (simp add: to_float_def rnd_of_int)

lemma floor_rat_numeral:
  "\<lfloor>numeral a / numeral b :: rat\<rfloor> = numeral a div numeral b"
  by (metis floor_divide_of_int_eq of_int_numeral)

lemma floor_rat_neg_numeral:
  "\<lfloor>- (numeral a / numeral b) :: rat\<rfloor> = - numeral a div numeral b"
  by (metis divide_minus_left floor_divide_of_int_eq of_int_neg_numeral of_int_numeral)

lemmas fl_eval = pow2_def round_half_even_def Let_def floor_rat_numeral floor_rat_neg_numeral

lemma lit_1_10: "float_lit (1 / 10) = Fin (3602879701896397 / 36028797018963968)"
  unfolding float_lit_def
  by (subst rnd_normal [where e = "- 4"]) (simp_all add: fl_eval)

lemma lit_8_10: "float_lit (8 / 10) = Fin (3602879701896397 / 4503599627370496)"
  unfolding float_lit_def
  by (subst rnd_normal [where e = "- 1"]) (simp_all add: fl_eval)

lemma lit_2_10: "float_lit (2 / 10) = Fin (3602879701896397 / 18014398509481984)"
  unfolding float_lit_def
  by (subst rnd_normal [where e = "- 3"]) (simp_all add: fl_eval)

lemma lit_3_10: "float_lit (3 / 10) = Fin (5404319552844595 / 18014398509481984)"
  unfolding float_lit_def
  by (subst rnd_normal [where e = "- 2"]) (simp_all add: fl_eval)

lemma rnd_val_abs_le:
  assumes "\<bar>x\<bar> \<le> b" "rnd_val b = b"
  shows "\<bar>rnd_val x\<bar> \<le> b"
proof -
  have "rnd_val \<bar>x\<bar> \<le> rnd_val b" using assms(1) by (rule rnd_val_mono)
  then show ?thesis using assms(2) by (simp add: abs_rnd_val)
qed

lemma rnd_val_one: "rnd_val 1 = 1"
  using rnd_val_dyadic [of 1 0] by (simp add: pow2_def)

lemma rnd_small:
  assumes "\<bar>x\<bar> \<le> 1"
  shows "rnd x = Fin (rnd_val x)"
proof -
  have "\<bar>rnd_val x\<bar> \<le> 1" using assms rnd_val_one by (rule rnd_val_abs_le)
  also have "(1::rat) < pow2 1024" using pow2_strict_mono [of 0 1024] by (simp add: pow2_def)
  finally show ?thesis by (rule rnd_Fin)
qed

text \<open>The largest double below 1.\<close>

lemma double_less_one:
  assumes "rnd r = Fin r" "0 \<le> r" "r < 1"
  shows "r \<le> 9007199254740991 / 9007199254740992"
proof (rule ccontr)
  assume "\<not> ?thesis"
  then have gt: "9007199254740991 / 9007199254740992 < r" by simp
  have "\<bar>r\<bar> \<le> 1" using assms by simp
  then have "rnd r = Fin (rnd_val r)" by (rule rnd_small)
  then have rv: "rnd_val r = r" using assms(1) by simp
  have "rnd_val r = of_int (round_half_even (r / pow2 (- 1 - 52))) * pow2 (- 1 - 52)"
    using assms gt by (intro rnd_val_normal) (simp_all add: pow2_def)
  then have "r * 9007199254740992 = of_int (round_half_even (r * 9007199254740992))"
    using rv by (simp add: pow2_def)
  then obtain n :: int where n: "r * 9007199254740992 = of_int n" ..
  have "of_int 9007199254740991 < (of_int n :: rat)" using gt n by simp
  moreover have "(of_int n :: rat) < of_int 9007199254740992" using assms(3) n by simp
  ultimately have "9007199254740991 < n" "n < 9007199254740992"
    by (simp_all only: of_int_less_iff)
  then show False by simp
qed

lemma select_from_dist_floats:
  "select_from_dist (PFloat (Fin x)) ((item, PFloat (Fin c)) # rest) =
     (if x < c then Inr item else select_from_dist (PFloat (rnd (x - c))) rest)"
  by (simp add: py_lt_def float_op_def fsub_def)

lemma daily_sales_dist_eq:
  "daily_sales_dist =
     [(3, PFloat (Fin (3602879701896397 / 18014398509481984))),
      (5, PFloat (Fin (5404319552844595 / 18014398509481984))),
      (7, PFloat (Fin (5404319552844595 / 18014398509481984))),
      (10, PFloat (Fin (3602879701896397 / 18014398509481984)))]"
  by (simp only: daily_sales_dist_def lit_2_10 lit_3_10)

lemma daily_sales_returns:
  assumes "rnd r = Fin r" "0 \<le> r" "r < 1"
  shows "select_from_dist (PFloat (Fin r)) daily_sales_dist \<in> {Inr 3, Inr 5, Inr 7, Inr 10}"
proof -
  let ?c2 = "3602879701896397 / 18014398509481984 :: rat"
  let ?c3 = "5404319552844595 / 18014398509481984 :: rat"
  let ?x1 = "rnd_val (r - ?c2)"
  let ?x2 = "rnd_val (?x1 - ?c3)"
  let ?x3 = "rnd_val (?x2 - ?c3)"
  have r: "r \<le> 9007199254740991 / 9007199254740992" using assms by (rule double_less_one)
  have k1: "rnd_val (9007199254740991 / 9007199254740992 - ?c2) = 900719925474099 / 1125899906842624"
    by (subst rnd_val_normal [where e = "- 1"]) (simp_all add: fl_eval)
  have k2: "rnd_val (900719925474099 / 1125899906842624 - ?c3) = 9007199254740989 / 18014398509481984"
    by (subst rnd_val_normal [where e = "- 2"]) (simp_all add: fl_eval)
  have k3: "rnd_val (9007199254740989 / 18014398509481984 - ?c3) = 1801439850948197 / 9007199254740992"
    by (subst rnd_val_normal [where e = "- 3"]) (simp_all add: fl_eval)
  have x1: "?x1 \<le> 900719925474099 / 1125899906842624"
    using rnd_val_mono [of "r - ?c2" "9007199254740991 / 9007199254740992 - ?c2"] r
    unfolding k1 by simp
  have x2: "?x2 \<le> 9007199254740989 / 18014398509481984"
    using rnd_val_mono [of "?x1 - ?c3" "900719925474099 / 1125899906842624 - ?c3"] x1
    unfolding k2 by simp
  have x3: "?x3 \<le> 1801439850948197 / 9007199254740992"
    using rnd_val_mono [of "?x2 - ?c3" "9007199254740989 / 18014398509481984 - ?c3"] x2
    unfolding k3 by simp
  have s1: "rnd (r - ?c2) = Fin ?x1" using assms by (intro rnd_small) simp
  have s2: "\<not> ?x1 < ?c3 \<Longrightarrow> rnd (?x1 - ?c3) = Fin ?x2" using x1 by (intro rnd_small) simp
  have s3: "\<not> ?x2 < ?c3 \<Longrightarrow> rnd (?x2 - ?c3) = Fin ?x3" using x2 by (intro rnd_small) simp
  have l3: "?x3 < ?c2" using x3 by simp
  show ?thesis
    using s1 s2 s3 l3
    by (simp add: daily_sales_dist_eq select_from_dist_floats del: select_from_dist.simps)
qed

section \<open>Properties of the environment\<close>

lemma unit_draw_returns:
  assumes "unit_draw r"
  shows "select_from_dist (PFloat r) daily_sales_dist \<in> {Inr 3, Inr 5, Inr 7, Inr 10}"
  using assms daily_sales_returns by (cases r) simp_all

lemma as_float_small: "\<bar>n\<bar> < 2 ^ 53 \<Longrightarrow> as_float (PInt n) = Inr (Fin (of_int n))"
  by (simp add: to_float_small)

lemma float_op_PFloat:
  "as_float a = Inr x \<Longrightarrow> as_float b = Inr y \<Longrightarrow> float_op f a b = Inr (PFloat (f x y))"
  by (simp add: float_op_def)

lemma py_add_float_left: "as_float b = Inr y \<Longrightarrow> py_add (PFloat x) b = Inr (PFloat (fadd x y))"
  by (cases b) (simp_all add: float_op_def)

lemma py_add_float_right: "as_float a = Inr x \<Longrightarrow> py_add a (PFloat y) = Inr (PFloat (fadd x y))"
  by (cases a) (simp_all add: float_op_def)

lemma py_sub_float_left: "as_float b = Inr y \<Longrightarrow> py_sub (PFloat x) b = Inr (PFloat (fsub x y))"
  by (cases b) (simp_all add: float_op_def)

lemma price_delta_small: "\<bar>price_delta ! nat (t mod int (length price_delta))\<bar> < 2 ^ 53"
proof -
  have "\<forall>d \<in> set price_delta. \<bar>d\<bar> < 2 ^ 53" by (simp add: price_delta_def)
  moreover have "nat (t mod int (length price_delta)) < length price_delta"
    by (simp add: price_delta_def nat_less_iff)
  ultimately show ?thesis by (metis nth_mem)
qed

lemma float_convertibleE:
  assumes "float_convertible a"
  obtains x where "as_float a = Inr x"
  using assms by (auto simp add: float_convertible_def split: sum.splits)

text \<open>What a call does once the sampler has returned and no conversion overflows.\<close>

lemma do_action_returns:
  assumes "select_from_dist (PFloat (fst draws)) daily_sales_dist = Inr daily_sales"
    and "py_add (stock env) (case action ''buy'' of None \<Rightarrow> PInt 0 | Some b \<Rightarrow> b) = Inr s1"
    and "py_sub s1 (PInt daily_sales) = Inr s2"
    and "py_add (PInt (price_delta ! nat ((time env + 1) mod int (length price_delta))))
           (PFloat (snd draws)) = Inr d"
    and "py_add (price env) d = Inr p"
  shows "do_action draws action env =
     (Inr [''price'' \<mapsto> p, ''stock'' \<mapsto> py_max (PInt 0) s2],
      env\<lparr>time := time env + 1, stock := py_max (PInt 0) s2, price := p,
          stock_history := stock_history env @ [py_max (PInt 0) s2],
          price_history := price_history env @ [p]\<rparr>)"
  using assms by (simp add: do_action_def Let_def make_percept_def)

lemma py_ge_max_zero: "py_ge (py_max (PInt 0) x) (PInt 0)"
  by (simp add: py_max_def py_ge_def py_gt_def)

text \<open>Every outcome of a call leaves the stock alone or clamps it.\<close>

lemma do_action_stock:
  "stock (snd (do_action draws action env)) = stock env \<or>
   (\<exists>x. stock (snd (do_action draws action env)) = py_max (PInt 0) x)"
  by (auto simp add: do_action_def Let_def split: sum.splits)

lemma do_action_stock_nonneg:
  assumes "py_ge (stock env) (PInt 0)"
  shows "py_ge (stock (snd (do_action draws action env))) (PInt 0)"
  using do_action_stock [of draws action env] assms py_ge_max_zero by auto

lemma do_actions_stock_nonneg:
  "py_ge (stock env) (PInt 0) \<Longrightarrow> py_ge (stock (do_actions calls env)) (PInt 0)"
proof (induction calls arbitrary: env)
  case Nil
  then show ?case by simp
next
  case (Cons c calls)
  obtain draws action where c: "c = (draws, action)" by (cases c)
  show ?case using Cons.IH [OF do_action_stock_nonneg [OF Cons.prems]] by (simp add: c)
qed

lemma py_add_PInt_small:
  assumes "\<bar>n\<bar> < 2 ^ 53"
  shows "\<exists>v. py_add (PInt n) b = Inr v"
  using assms by (cases b) (simp_all add: float_op_def to_float_small)

lemma py_sub_PInt_small:
  assumes "\<bar>n\<bar> < 2 ^ 53"
  shows "\<exists>v. py_sub a (PInt n) = Inr v"
  using assms by (cases a) (simp_all add: float_op_def to_float_small)

lemma price_step_returns:
  assumes "float_convertible p"
  shows "\<exists>d q. py_add (PInt (price_delta ! nat (t mod int (length price_delta)))) (PFloat noise) = Inr d
           \<and> py_add p d = Inr (PFloat q)"
proof -
  let ?n = "price_delta ! nat (t mod int (length price_delta))"
  obtain x where x: "as_float p = Inr x" using assms by (rule float_convertibleE)
  have d: "py_add (PInt ?n) (PFloat noise) = Inr (PFloat (fadd (Fin (of_int ?n)) noise))"
    using price_delta_small [of t] by (intro py_add_float_right as_float_small)
  have "py_add p (PFloat (fadd (Fin (of_int ?n)) noise)) = Inr (PFloat (fadd x (fadd (Fin (of_int ?n)) noise)))"
    using x by (rule py_add_float_right)
  with d show ?thesis by blast
qed

text \<open>The outcomes of a call: it leaves the environment alone, or it completes.\<close>

lemma do_action_cases:
  assumes "float_convertible (price env)"
  shows "snd (do_action draws action env) = env \<or>
    (\<exists>s q. snd (do_action draws action env) =
       env\<lparr>time := time env + 1, stock := s, price := PFloat q,
           stock_history := stock_history env @ [s],
           price_history := price_history env @ [PFloat q]\<rparr>)"
proof (cases "select_from_dist (PFloat (fst draws)) daily_sales_dist")
  case (Inl e)
  then show ?thesis by (simp add: do_action_def)
next
  case sales: (Inr daily_sales)
  show ?thesis
  proof (cases "py_add (stock env) (case action ''buy'' of None \<Rightarrow> PInt 0 | Some b \<Rightarrow> b)")
    case (Inl e)
    then show ?thesis using sales by (simp add: do_action_def)
  next
    case s1: (Inr s1)
    show ?thesis
    proof (cases "py_sub s1 (PInt daily_sales)")
      case (Inl e)
      then show ?thesis using sales s1 by (simp add: do_action_def)
    next
      case s2: (Inr s2)
      obtain d q where
        d: "py_add (PInt (price_delta ! nat ((time env + 1) mod int (length price_delta))))
           (PFloat (snd draws)) = Inr d" and q: "py_add (price env) d = Inr (PFloat q)"
        using price_step_returns [OF assms] by blast
      from do_action_returns [where draws = draws and action = action and env = env,
          OF sales s1 s2 d q]
      show ?thesis by auto
    qed
  qed
qed



lemma do_action_history_inv:
  assumes "history_inv env" "float_convertible (price env)"
  shows "history_inv (snd (do_action draws action env)) \<and>
         float_convertible (price (snd (do_action draws action env)))"
  using do_action_cases [OF assms(2), of draws action] assms
  by (auto simp add: history_inv_def float_convertible_def)

lemma do_actions_history_inv:
  "history_inv env \<Longrightarrow> float_convertible (price env) \<Longrightarrow> history_inv (do_actions calls env)"
proof (induction calls arbitrary: env)
  case Nil
  then show ?case by simp
next
  case (Cons c calls)
  obtain draws action where c: "c = (draws, action)" by (cases c)
  from do_action_history_inv [OF Cons.prems, of draws action]
  show ?case using Cons.IH by (simp add: c)
qed

lemma init_convertible: "float_convertible (price SmartphoneEnvironment_init)"
  by (simp add: float_convertible_def SmartphoneEnvironment_init_def to_float_small)

text \<open>
  C2. For a freshly constructed environment and any sequence of \<open>do_action\<close> calls,
  whatever the draws, the actions and the outcome of each call,
  \<open>len(price_history) == len(stock_history) == time + 1\<close> holds after every call; at
  construction \<open>time\<close> is 0 and each history holds one element.
\<close>

theorem history_lengths:
  "length (price_history (do_actions calls SmartphoneEnvironment_init)) =
     length (stock_history (do_actions calls SmartphoneEnvironment_init)) \<and>
   int (length (stock_history (do_actions calls SmartphoneEnvironment_init))) =
     time (do_actions calls SmartphoneEnvironment_init) + 1 \<and>
   time SmartphoneEnvironment_init = 0 \<and>
   length (price_history SmartphoneEnvironment_init) = 1 \<and>
   length (stock_history SmartphoneEnvironment_init) = 1"
proof -
  have "history_inv SmartphoneEnvironment_init"
    by (simp add: history_inv_def SmartphoneEnvironment_init_def)
  from do_actions_history_inv [OF this init_convertible, of calls]
  show ?thesis by (simp add: history_inv_def SmartphoneEnvironment_init_def)
qed

text \<open>
  C1. For every sequence of \<open>do_action\<close> calls on a freshly constructed environment in
  which every action has \<open>buy >= 0\<close>, the stock is \<open>>= 0\<close> after each call: the
  update clamps at zero, and a call that raises leaves the stock as it was.
\<close>

theorem stock_never_negative:
  assumes "\<forall>(draws, action) \<in> set calls.
     (case action ''buy'' of None \<Rightarrow> True | Some b \<Rightarrow> py_ge b (PInt 0))"
  shows "py_ge (stock (do_actions calls SmartphoneEnvironment_init)) (PInt 0)"
proof -
  have "py_ge (stock SmartphoneEnvironment_init) (PInt 0)"
    by (simp add: SmartphoneEnvironment_init_def py_ge_def py_lt_def)
  then show ?thesis by (rule do_actions_stock_nonneg)
qed

theorem stock_never_negative_witness:
  "py_ge (PInt 15) (PInt 0) \<and>
   py_ge (stock (do_actions
     [((Fin (1 / 2), Fin 0), [''buy'' \<mapsto> PInt 15]), ((Fin 0, Fin 1), Map.empty)]
     SmartphoneEnvironment_init)) (PInt 0)"
proof -
  have h: "\<forall>(draws, action) \<in> set [((Fin (1 / 2), Fin 0), [''buy'' \<mapsto> PInt 15]), ((Fin 0, Fin 1), Map.empty)].
      (case action ''buy'' of None \<Rightarrow> True | Some b \<Rightarrow> py_ge b (PInt 0))"
    by (simp add: py_ge_def py_lt_def)
  have "py_ge (PInt 15) (PInt 0)" by (simp add: py_ge_def py_lt_def)
  then show ?thesis using stock_never_negative [OF h] by (rule conjI)
qed

section \<open>Properties of the agent\<close>

lemma as_float_exact:
  assumes "exact a = Fin (of_int n)" "\<bar>n\<bar> < 2 ^ 53"
  shows "as_float a = Inr (Fin (of_int n))"
  using assms by (cases a) (simp_all add: to_float_small)

lemma py_sub_exact:
  assumes "as_float a = Inr (Fin x)" "as_float b = Inr (Fin y)" "exact a = Fin x" "exact b = Fin y"
    "rnd (x - y) = Fin (x - y)"
  shows "\<exists>d. py_sub a b = Inr d \<and> exact d = Fin (x - y)"
proof (cases a)
  case a: (PInt m)
  show ?thesis
  proof (cases b)
    case (PInt k)
    then show ?thesis using a assms(3,4) by auto
  next
    case (PFloat v)
    then show ?thesis using a assms by (simp add: float_op_def fsub_def)
  qed
next
  case (PFloat u)
  then show ?thesis using assms by (cases b) (simp_all add: float_op_def fsub_def)
qed

lemma py_mul_exact:
  assumes "as_float a = Inr (Fin x)" "as_float b = Inr (Fin y)" "exact a = Fin x" "exact b = Fin y"
    "rnd (x * y) = Fin (x * y)"
  shows "\<exists>d. py_mul a b = Inr d \<and> exact d = Fin (x * y)"
proof (cases a)
  case a: (PInt m)
  show ?thesis
  proof (cases b)
    case (PInt k)
    then show ?thesis using a assms(3,4) by auto
  next
    case (PFloat v)
    then show ?thesis using a assms by (simp add: float_op_def)
  qed
next
  case (PFloat u)
  then show ?thesis using assms by (cases b) (simp_all add: float_op_def)
qed

lemma py_mul_float_right:
  "as_float a = Inr x \<Longrightarrow> py_mul a (PFloat y) = Inr (PFloat (fmul x y))"
  by (cases a) (simp_all add: float_op_def)

lemma py_mul_float_left:
  "as_float b = Inr y \<Longrightarrow> py_mul (PFloat x) b = Inr (PFloat (fmul x y))"
  by (cases b) (simp_all add: float_op_def)

text \<open>What a decision does once no conversion overflows.\<close>

lemma select_action_returns:
  assumes "pct ''price'' = Some current_price" "pct ''stock'' = Some current_stock"
    and "py_sub current_price (average_price ag) = Inr d"
    and "py_mul d (PFloat (float_lit (1 / 10))) = Inr st"
    and "py_add (average_price ag) st = Inr avg"
    and "py_mul (PFloat (float_lit (8 / 10))) avg = Inr threshold"
    and "tobuy = (if py_lt current_price threshold \<and> py_gt current_stock (PInt 10) then 15
                  else if py_lt current_stock (PInt 10) then 10 else 0)"
    and "py_mul (PInt tobuy) current_price = Inr cost"
    and "py_add (total_spent ag) cost = Inr spent"
  shows "select_action pct ag =
     (Inr [''buy'' \<mapsto> PInt tobuy],
      ag\<lparr>average_price := avg, total_spent := spent, buy_history := buy_history ag @ [tobuy]\<rparr>)"
  using assms by (simp add: select_action_def Let_def)

lemma fmul_m100: "fmul (Fin (- 100)) (float_lit (1 / 10)) = Fin (- 10)"
  unfolding lit_1_10 fmul.simps
  by (subst rnd_normal [where e = 3]) (simp_all add: fl_eval)

lemma fmul_m200: "fmul (Fin (- 200)) (float_lit (1 / 10)) = Fin (- 20)"
  unfolding lit_1_10 fmul.simps
  by (subst rnd_normal [where e = 4]) (simp_all add: fl_eval)

lemma fmul_590: "fmul (float_lit (8 / 10)) (Fin 590) = Fin 472"
  unfolding lit_8_10 fmul.simps
  by (subst rnd_normal [where e = 8]) (simp_all add: fl_eval)

lemma fmul_580: "fmul (float_lit (8 / 10)) (Fin 580) = Fin 464"
  unfolding lit_8_10 fmul.simps
  by (subst rnd_normal [where e = 8]) (simp_all add: fl_eval)

lemma rnd_numeral: "\<bar>numeral k :: int\<bar> < 2 ^ 53 \<Longrightarrow> rnd (numeral k) = Fin (numeral k)"
  using rnd_of_int [of "numeral k"] by simp

lemma rnd_neg_numeral: "\<bar>numeral k :: int\<bar> < 2 ^ 53 \<Longrightarrow> rnd (- numeral k) = Fin (- numeral k)"
  using rnd_of_int [of "- numeral k"] by simp

lemma py_add_convertible:
  assumes "float_convertible a" "float_convertible b"
  shows "\<exists>v. py_add a b = Inr v"
proof -
  obtain x where x: "as_float a = Inr x" using assms(1) by (rule float_convertibleE)
  obtain y where y: "as_float b = Inr y" using assms(2) by (rule float_convertibleE)
  from x y show ?thesis by (cases a; cases b) (simp_all add: float_op_def)
qed

lemma float_convertible_exact:
  "exact a = Fin (of_int n) \<Longrightarrow> \<bar>n\<bar> < 2 ^ 53 \<Longrightarrow> float_convertible a"
  by (simp add: float_convertible_def as_float_exact)

text \<open>
  C7. For an agent whose \<open>average_price\<close> is 600 (the int of a fresh agent or the float),
  \<open>select_action\<close> on the percept \<open>{price: 500, stock: 10}\<close> returns the action
  \<open>{buy: 0}\<close> and leaves \<open>average_price\<close> at 590: \<open>500 < 0.8 * 590 = 472\<close> is
  false, and a stock of exactly 10 is neither \<open>> 10\<close> nor \<open>< 10\<close>.
\<close>

theorem select_action_boundary:
  assumes avg: "exact (average_price ag) = Fin 600"
    and cp: "pct ''price'' = Some cp" "exact cp = Fin 500"
    and cs: "pct ''stock'' = Some cs" "exact cs = Fin 10"
    and tot: "float_convertible (total_spent ag)"
  shows "fst (select_action pct ag) = Inr [''buy'' \<mapsto> PInt 0] \<and>
         average_price (snd (select_action pct ag)) = PFloat (Fin 590)"
proof -
  have a600: "as_float (average_price ag) = Inr (Fin 600)"
    using as_float_exact [of "average_price ag" 600] avg by simp
  have a500: "as_float cp = Inr (Fin 500)"
    using as_float_exact [of cp 500] cp(2) by simp
  obtain d where d: "py_sub cp (average_price ag) = Inr d" and ed: "exact d = Fin (- 100)"
    using py_sub_exact [OF a500 a600 cp(2) avg] by (auto simp add: rnd_neg_numeral)
  have "as_float d = Inr (Fin (- 100))"
    using as_float_exact [of d "- 100"] ed by simp
  then have st: "py_mul d (PFloat (float_lit (1 / 10))) = Inr (PFloat (Fin (- 10)))"
    by (simp only: py_mul_float_right fmul_m100)
  have "fadd (Fin 600) (Fin (- 10)) = Fin 590" by (simp add: rnd_numeral)
  then have av: "py_add (average_price ag) (PFloat (Fin (- 10))) = Inr (PFloat (Fin 590))"
    using py_add_float_right [OF a600, of "Fin (- 10)"] by simp
  have th: "py_mul (PFloat (float_lit (8 / 10))) (PFloat (Fin 590)) = Inr (PFloat (Fin 472))"
    by (simp only: py_mul_float_left as_float.simps fmul_590)
  have tb: "(0::int) = (if py_lt cp (PFloat (Fin 472)) \<and> py_gt cs (PInt 10) then 15
                  else if py_lt cs (PInt 10) then 10 else 0)"
    using cp(2) cs(2) by (simp add: py_lt_def py_gt_def)
  have a0: "as_float (PInt 0) = Inr (Fin 0)" using as_float_small [of 0] by simp
  obtain c where c: "py_mul (PInt 0) cp = Inr c" and ec: "exact c = Fin 0"
    using py_mul_exact [OF a0 a500 _ cp(2)] by (auto simp add: rnd_zero)
  have "float_convertible c" using float_convertible_exact [of c 0] ec by simp
  then obtain spent where sp: "py_add (total_spent ag) c = Inr spent"
    using py_add_convertible [OF tot] by blast
  from select_action_returns [OF cp(1) cs(1) d st av th tb c sp]
  show ?thesis by simp
qed

theorem select_action_boundary_witness:
  "exact (average_price SmartphoneAgent_init) = Fin 600 \<and>
   [''price'' \<mapsto> PInt 500, ''stock'' \<mapsto> PInt 10] ''price'' = Some (PInt 500) \<and>
   exact (PInt 500) = Fin 500 \<and>
   [''price'' \<mapsto> PInt 500, ''stock'' \<mapsto> PInt 10] ''stock'' = Some (PInt 10) \<and>
   exact (PInt 10) = Fin 10 \<and>
   float_convertible (total_spent SmartphoneAgent_init) \<and>
   fst (select_action [''price'' \<mapsto> PInt 500, ''stock'' \<mapsto> PInt 10] SmartphoneAgent_init) =
     Inr [''buy'' \<mapsto> PInt 0] \<and>
   average_price (snd (select_action [''price'' \<mapsto> PInt 500, ''stock'' \<mapsto> PInt 10]
     SmartphoneAgent_init)) = PFloat (Fin 590)"
proof -
  have 1: "exact (average_price SmartphoneAgent_init) = Fin 600"
    by (simp add: SmartphoneAgent_init_def)
  have 2: "[''price'' \<mapsto> PInt 500, ''stock'' \<mapsto> PInt 10] ''price'' = Some (PInt 500)" by simp
  have 3: "exact (PInt 500) = Fin 500" by simp
  have 4: "[''price'' \<mapsto> PInt 500, ''stock'' \<mapsto> PInt 10] ''stock'' = Some (PInt 10)" by simp
  have 5: "exact (PInt 10) = Fin 10" by simp
  have 6: "float_convertible (total_spent SmartphoneAgent_init)"
    using float_convertible_exact [of "PInt 0" 0] by (simp add: SmartphoneAgent_init_def)
  from select_action_boundary [OF 1 2 3 4 5 6] 1 2 3 4 5 6 show ?thesis by blast
qed

text \<open>
  C8. For an agent whose \<open>average_price\<close> is 600, \<open>select_action\<close> on the percept
  \<open>{price: 400, stock: 20}\<close> leaves \<open>average_price\<close> at 580, meets the discount
  condition (\<open>400 < 0.8 * 580 = 464\<close> and \<open>20 > 10\<close>) and returns the action
  \<open>{buy: 15}\<close>.
\<close>

theorem select_action_discount:
  assumes avg: "exact (average_price ag) = Fin 600"
    and cp: "pct ''price'' = Some cp" "exact cp = Fin 400"
    and cs: "pct ''stock'' = Some cs" "exact cs = Fin 20"
    and tot: "float_convertible (total_spent ag)"
  shows "fst (select_action pct ag) = Inr [''buy'' \<mapsto> PInt 15] \<and>
         average_price (snd (select_action pct ag)) = PFloat (Fin 580) \<and>
         fmul (float_lit (8 / 10)) (Fin 580) = Fin 464"
proof -
  have a600: "as_float (average_price ag) = Inr (Fin 600)"
    using as_float_exact [of "average_price ag" 600] avg by simp
  have a400: "as_float cp = Inr (Fin 400)"
    using as_float_exact [of cp 400] cp(2) by simp
  obtain d where d: "py_sub cp (average_price ag) = Inr d" and ed: "exact d = Fin (- 200)"
    using py_sub_exact [OF a400 a600 cp(2) avg] by (auto simp add: rnd_neg_numeral)
  have "as_float d = Inr (Fin (- 200))"
    using as_float_exact [of d "- 200"] ed by simp
  then have st: "py_mul d (PFloat (float_lit (1 / 10))) = Inr (PFloat (Fin (- 20)))"
    by (simp only: py_mul_float_right fmul_m200)
  have "fadd (Fin 600) (Fin (- 20)) = Fin 580" by (simp add: rnd_numeral)
  then have av: "py_add (average_price ag) (PFloat (Fin (- 20))) = Inr (PFloat (Fin 580))"
    using py_add_float_right [OF a600, of "Fin (- 20)"] by simp
  have th: "py_mul (PFloat (float_lit (8 / 10))) (PFloat (Fin 580)) = Inr (PFloat (Fin 464))"
    by (simp only: py_mul_float_left as_float.simps fmul_580)
  have tb: "(15::int) = (if py_lt cp (PFloat (Fin 464)) \<and> py_gt cs (PInt 10) then 15
                  else if py_lt cs (PInt 10) then 10 else 0)"
    using cp(2) cs(2) by (simp add: py_lt_def py_gt_def)
  have a15: "as_float (PInt 15) = Inr (Fin 15)" using as_float_small [of 15] by simp
  obtain c where c: "py_mul (PInt 15) cp = Inr c" and ec: "exact c = Fin 6000"
    using py_mul_exact [OF a15 a400 _ cp(2)] by (auto simp add: rnd_numeral)
  have "float_convertible c" using float_convertible_exact [of c 6000] ec by simp
  then obtain spent where sp: "py_add (total_spent ag) c = Inr spent"
    using py_add_convertible [OF tot] by blast
  from select_action_returns [OF cp(1) cs(1) d st av th tb c sp] fmul_580
  show ?thesis by simp
qed

theorem select_action_discount_witness:
  "exact (average_price SmartphoneAgent_init) = Fin 600 \<and>
   [''price'' \<mapsto> PInt 400, ''stock'' \<mapsto> PInt 20] ''price'' = Some (PInt 400) \<and>
   exact (PInt 400) = Fin 400 \<and>
   [''price'' \<mapsto> PInt 400, ''stock'' \<mapsto> PInt 20] ''stock'' = Some (PInt 20) \<and>
   exact (PInt 20) = Fin 20 \<and>
   float_convertible (total_spent SmartphoneAgent_init) \<and>
   fst (select_action [''price'' \<mapsto> PInt 400, ''stock'' \<mapsto> PInt 20] SmartphoneAgent_init) =
     Inr [''buy'' \<mapsto> PInt 15] \<and>
   average_price (snd (select_action [''price'' \<mapsto> PInt 400, ''stock'' \<mapsto> PInt 20]
     SmartphoneAgent_init)) = PFloat (Fin 580)"
proof -
  have 1: "exact (average_price SmartphoneAgent_init) = Fin 600"
    by (simp add: SmartphoneAgent_init_def)
  have 2: "[''price'' \<mapsto> PInt 400, ''stock'' \<mapsto> PInt 20] ''price'' = Some (PInt 400)" by simp
  have 3: "exact (PInt 400) = Fin 400" by simp
  have 4: "[''price'' \<mapsto> PInt 400, ''stock'' \<mapsto> PInt 20] ''stock'' = Some (PInt 20)" by simp
  have 5: "exact (PInt 20) = Fin 20" by simp
  have 6: "float_convertible (total_spent SmartphoneAgent_init)"
    using float_convertible_exact [of "PInt 0" 0] by (simp add: SmartphoneAgent_init_def)
  from select_action_discount [OF 1 2 3 4 5 6] 1 2 3 4 5 6 show ?thesis by blast
qed

section \<open>The first price update and the default order\<close>

lemma unit_draw_sales:
  assumes "unit_draw r"
  obtains daily_sales where "select_from_dist (PFloat r) daily_sales_dist = Inr daily_sales"
    "\<bar>daily_sales\<bar> < 2 ^ 53"
proof -
  from unit_draw_returns [OF assms]
  consider "select_from_dist (PFloat r) daily_sales_dist = Inr 3"
    | "select_from_dist (PFloat r) daily_sales_dist = Inr 5"
    | "select_from_dist (PFloat r) daily_sales_dist = Inr 7"
    | "select_from_dist (PFloat r) daily_sales_dist = Inr 10" by auto
  then show thesis by cases (auto intro: that)
qed

text \<open>
  C6. With the Gaussian draw fixed to 0, one \<open>do_action\<close> call on a freshly constructed
  environment (time 0, price 600) returns and leaves the price at
  \<open>600 + price_delta[1 % 10] = 600 + (-20) = 580\<close>: the delta is indexed by the time
  already incremented.
\<close>

theorem first_price_update:
  assumes "unit_draw r"
  shows "(\<exists>p. fst (do_action (r, Fin 0) action SmartphoneEnvironment_init) = Inr p) \<and>
    time (snd (do_action (r, Fin 0) action SmartphoneEnvironment_init)) = 1 \<and>
    price (snd (do_action (r, Fin 0) action SmartphoneEnvironment_init)) = PFloat (Fin 580) \<and>
    price_delta ! nat (1 mod int (length price_delta)) = - 20"
proof -
  let ?env = SmartphoneEnvironment_init
  obtain daily_sales where
    sales: "select_from_dist (PFloat (fst (r, Fin 0))) daily_sales_dist = Inr daily_sales"
    and small: "\<bar>daily_sales\<bar> < 2 ^ 53"
    using unit_draw_sales [OF assms] by auto
  obtain s1 where
    s1: "py_add (stock ?env) (case action ''buy'' of None \<Rightarrow> PInt 0 | Some b \<Rightarrow> b) = Inr s1"
    using py_add_PInt_small [of 50] by (auto simp add: SmartphoneEnvironment_init_def)
  obtain s2 where s2: "py_sub s1 (PInt daily_sales) = Inr s2"
    using py_sub_PInt_small [OF small] by blast
  have delta: "price_delta ! nat (1 mod int (length price_delta)) = - 20"
    by (simp add: price_delta_def)
  have d: "py_add (PInt (price_delta ! nat ((time ?env + 1) mod int (length price_delta))))
      (PFloat (snd (r, Fin 0))) = Inr (PFloat (Fin (- 20)))"
    by (simp add: SmartphoneEnvironment_init_def price_delta_def float_op_def to_float_small
        rnd_neg_numeral)
  have p: "py_add (price ?env) (PFloat (Fin (- 20))) = Inr (PFloat (Fin 580))"
    by (simp add: SmartphoneEnvironment_init_def float_op_def to_float_small rnd_numeral)
  from do_action_returns [where draws = "(r, Fin 0)" and action = action and env = ?env,
      OF sales s1 s2 d p] delta
  show ?thesis by (simp add: SmartphoneEnvironment_init_def)
qed

theorem first_price_update_witness:
  "unit_draw (Fin (1 / 2)) \<and>
   price (snd (do_action (Fin (1 / 2), Fin 0) [''buy'' \<mapsto> PInt 0] SmartphoneEnvironment_init)) =
     PFloat (Fin 580)"
proof -
  have "rnd (1 / 2) = Fin (1 / 2)"
    using rnd_dyadic [of 1 "- 1"] by (simp add: pow2_def)
  then have h: "unit_draw (Fin (1 / 2))" by simp
  from h first_price_update [OF h, of "[''buy'' \<mapsto> PInt 0]"] show ?thesis by blast
qed

lemma fadd_zero_right: "is_double d \<Longrightarrow> fadd d (Fin 0) = d"
  by (cases d) simp_all

lemma py_add_zero:
  assumes "is_number a"
  shows "py_add a (PInt 0) = Inr a"
  using assms by (cases a) (simp_all add: float_op_def to_float_small fadd_zero_right)

text \<open>
  C10. A \<open>do_action\<close> call whose action has no \<open>buy\<close> key does not fail: it does
  exactly what the call with \<open>buy = 0\<close> does, setting the stock to
  \<open>max(0, stock - daily_sales)\<close> and going on with the price and history updates.
\<close>

theorem missing_buy_defaults_to_zero:
  assumes "action ''buy'' = None" "unit_draw r" "float_convertible (price env)"
    "is_number (stock env)"
  shows "do_action (r, noise) action env = do_action (r, noise) (action(''buy'' \<mapsto> PInt 0)) env \<and>
    (\<exists>daily_sales s2 q.
       select_from_dist (PFloat r) daily_sales_dist = Inr daily_sales \<and>
       py_sub (stock env) (PInt daily_sales) = Inr s2 \<and>
       do_action (r, noise) action env =
         (Inr [''price'' \<mapsto> PFloat q, ''stock'' \<mapsto> py_max (PInt 0) s2],
          env\<lparr>time := time env + 1, stock := py_max (PInt 0) s2, price := PFloat q,
              stock_history := stock_history env @ [py_max (PInt 0) s2],
              price_history := price_history env @ [PFloat q]\<rparr>))"
proof -
  have same: "do_action (r, noise) action env = do_action (r, noise) (action(''buy'' \<mapsto> PInt 0)) env"
    using assms(1) by (simp add: do_action_def cong: sum.case_cong)
  obtain daily_sales where
    sales: "select_from_dist (PFloat (fst (r, noise))) daily_sales_dist = Inr daily_sales"
    and small: "\<bar>daily_sales\<bar> < 2 ^ 53"
    using unit_draw_sales [OF assms(2)] by auto
  have s1: "py_add (stock env) (case action ''buy'' of None \<Rightarrow> PInt 0 | Some b \<Rightarrow> b) = Inr (stock env)"
    using assms(1) py_add_zero [OF assms(4)] by simp
  obtain s2 where s2: "py_sub (stock env) (PInt daily_sales) = Inr s2"
    using py_sub_PInt_small [OF small] by blast
  obtain d q where
    d: "py_add (PInt (price_delta ! nat ((time env + 1) mod int (length price_delta))))
           (PFloat (snd (r, noise))) = Inr d" and q: "py_add (price env) d = Inr (PFloat q)"
    using price_step_returns [OF assms(3), of "time env + 1" "snd (r, noise)"] by blast
  from do_action_returns [where draws = "(r, noise)" and action = action and env = env,
      OF sales s1 s2 d q] sales s2 same
  show ?thesis by auto
qed

theorem missing_buy_defaults_to_zero_witness:
  "Map.empty ''buy'' = (None :: pynum option) \<and> unit_draw (Fin (1 / 2)) \<and>
   float_convertible (price SmartphoneEnvironment_init) \<and>
   is_number (stock SmartphoneEnvironment_init) \<and>
   do_action (Fin (1 / 2), Fin 0) Map.empty SmartphoneEnvironment_init =
     do_action (Fin (1 / 2), Fin 0) [''buy'' \<mapsto> PInt 0] SmartphoneEnvironment_init"
proof -
  have 1: "Map.empty ''buy'' = (None :: pynum option)" by simp
  have "rnd (1 / 2) = Fin (1 / 2)"
    using rnd_dyadic [of 1 "- 1"] by (simp add: pow2_def)
  then have 2: "unit_draw (Fin (1 / 2))" by simp
  have 3: "float_convertible (price SmartphoneEnvironment_init)" by (rule init_convertible)
  have 4: "is_number (stock SmartphoneEnvironment_init)"
    by (simp add: SmartphoneEnvironment_init_def)
  from missing_buy_defaults_to_zero [OF 1 2 3 4, of "Fin 0"] 1 2 3 4 show ?thesis by simp
qed

section \<open>Properties of the sampler\<close>

lemma lit_5_10: "float_lit (5 / 10) = Fin (1 / 2)"
  unfolding float_lit_def
  by (subst rnd_normal [where e = "- 1"]) (simp_all add: fl_eval)

lemma rnd_max_unit: "rnd (9007199254740991 / 9007199254740992) = Fin (9007199254740991 / 9007199254740992)"
  using rnd_dyadic [of 9007199254740991 "- 53"] by (simp add: pow2_def)

lemma rnd_half: "rnd (1 / 2) = Fin (1 / 2)"
  using rnd_dyadic [of 1 "- 1"] by (simp add: pow2_def)

lemma rnd_3_10: "rnd (5404319552844595 / 18014398509481984) = Fin (5404319552844595 / 18014398509481984)"
  using rnd_dyadic [of 5404319552844595 "- 54"] by (simp add: pow2_def)

lemma rnd_1_10: "rnd (3602879701896397 / 36028797018963968) = Fin (3602879701896397 / 36028797018963968)"
  using rnd_dyadic [of 3602879701896397 "- 55"] by (simp add: pow2_def)

text \<open>
  C3 (the code at a failing input). The distribution \<open>{a: 0.3, b: 0.1, c: 0.1, d: 0.5}\<close>
  has non-negative probabilities whose total is 1, exactly and as accumulated in floats,
  and \<open>1 - 2 powi -53\<close> is a double in \<open>[0, 1)\<close>; at that draw every test of the
  sampler fails (the subtractions round up to 0.7, 0.6, 0.5 and 0.0) and it raises the
  RuntimeError.
\<close>

theorem sampler_rejects_valid_distribution:
  "valid_probs [(''a'', PFloat (float_lit (3 / 10))), (''b'', PFloat (float_lit (1 / 10))),
                (''c'', PFloat (float_lit (1 / 10))), (''d'', PFloat (float_lit (5 / 10)))] \<and>
   prob_total [(''a'', PFloat (float_lit (3 / 10))), (''b'', PFloat (float_lit (1 / 10))),
               (''c'', PFloat (float_lit (1 / 10))), (''d'', PFloat (float_lit (5 / 10)))] = 1 \<and>
   float_total [(''a'', PFloat (float_lit (3 / 10))), (''b'', PFloat (float_lit (1 / 10))),
                (''c'', PFloat (float_lit (1 / 10))), (''d'', PFloat (float_lit (5 / 10)))] = Fin 1 \<and>
   unit_draw (Fin (9007199254740991 / 9007199254740992)) \<and>
   select_from_dist (PFloat (Fin (9007199254740991 / 9007199254740992)))
     [(''a'', PFloat (float_lit (3 / 10))), (''b'', PFloat (float_lit (1 / 10))),
      (''c'', PFloat (float_lit (1 / 10))), (''d'', PFloat (float_lit (5 / 10)))] = Inl RuntimeError"
proof -
  let ?c3 = "5404319552844595 / 18014398509481984 :: rat"
  let ?c1 = "3602879701896397 / 36028797018963968 :: rat"
  let ?r = "9007199254740991 / 9007199254740992 :: rat"
  let ?v7 = "3152519739159347 / 4503599627370496 :: rat"
  let ?v6 = "5404319552844595 / 9007199254740992 :: rat"
  let ?d = "[(''a'', PFloat (Fin ?c3)), (''b'', PFloat (Fin ?c1)),
                (''c'', PFloat (Fin ?c1)), (''d'', PFloat (Fin (1 / 2)))]"
  have s1: "rnd (?r - ?c3) = Fin ?v7"
    by (subst rnd_normal [where e = "- 1"]) (simp_all add: fl_eval)
  have s2: "rnd (?v7 - ?c1) = Fin ?v6"
    by (subst rnd_normal [where e = "- 1"]) (simp_all add: fl_eval)
  have s3: "rnd (?v6 - ?c1) = Fin (1 / 2)"
    by (subst rnd_normal [where e = "- 2"]) (simp_all add: fl_eval)
  have s4: "rnd (1 / 2 - 1 / 2) = Fin 0" by (simp add: rnd_zero)
  have raises: "select_from_dist (PFloat (Fin ?r)) ?d = Inl RuntimeError"
    by (simp only: select_from_dist_floats s1 s2 s3 s4) simp
  have valid: "valid_probs ?d"
    by (simp add: valid_probs_def rnd_3_10 rnd_1_10 rnd_half)
  have total: "prob_total ?d = 1" by (simp add: prob_total_def)
  have a1: "rnd (0 + ?c3) = Fin ?c3" by (simp add: rnd_3_10)
  have a2: "rnd (?c3 + ?c1) = Fin (3602879701896397 / 9007199254740992)"
    by (subst rnd_normal [where e = "- 2"]) (simp_all add: fl_eval)
  have a3: "rnd (3602879701896397 / 9007199254740992 + ?c1) = Fin (1 / 2)"
    by (subst rnd_normal [where e = "- 1"]) (simp_all add: fl_eval)
  have a4: "rnd (1 / 2 + 1 / 2) = Fin 1" using rnd_of_int [of 1] by simp
  have ftotal: "float_total ?d = Fin 1"
    by (simp only: float_total_def list.map prod.case exact.simps foldl.simps fadd.simps a1 a2 a3 a4)
  have draw: "unit_draw (Fin ?r)" by (simp add: rnd_max_unit)
  from valid total ftotal draw raises show ?thesis
    by (simp only: lit_3_10 lit_1_10 lit_5_10)
qed

lemma rhe_lower: "x - 1 / 2 \<le> of_int (round_half_even x)"
proof -
  have "x - 1 < of_int \<lfloor>x\<rfloor>" by linarith
  then show ?thesis by (auto simp add: round_half_even_def Let_def)
qed

lemma rnd_val_lower:
  assumes "0 \<le> y" "y \<le> 1"
  shows "y - 1 / 2 ^ 54 \<le> rnd_val y"
proof -
  consider "y = 0" | "y = 1" | "0 < y" "y < 1" using assms by linarith
  then show ?thesis
  proof cases
    case 1
    then show ?thesis by (simp add: rnd_val_def)
  next
    case 2
    then show ?thesis by (simp add: rnd_val_one)
  next
    case 3
    have "pow2 (ilog2 y) \<le> y" using ilog2_bounds [OF 3(1)] by simp
    also have "y < pow2 0" using 3(2) by (simp add: pow2_def)
    finally have "ilog2 y < 0" by (simp only: pow2_less_iff)
    then have "fexp y - 52 \<le> - 53" using 3(1) by (simp add: fexp_def)
    then have "quantum y \<le> pow2 (- 53)" by (simp only: quantum_def pow2_le_iff)
    then have q: "quantum y \<le> 1 / 2 ^ 53" by (simp add: pow2_def)
    have "(y / quantum y - 1 / 2) * quantum y \<le> of_int (round_half_even (y / quantum y)) * quantum y"
      using rhe_lower [of "y / quantum y"] quantum_pos [of y]
      by (simp only: mult_le_cancel_right) simp
    moreover have "(y / quantum y - 1 / 2) * quantum y = y - quantum y / 2"
      using quantum_pos [of y] by (simp add: field_simps)
    ultimately have "y - quantum y / 2 \<le> rnd_val y" using 3(1) by (simp add: rnd_val_def)
    then show ?thesis using q by simp
  qed
qed

lemma prob_total_Cons:
  "prob_total ((item, PFloat (Fin p)) # rest) = p + prob_total rest"
  by (simp add: prob_total_def)

lemma valid_probs_ConsE:
  assumes "valid_probs (entry # rest)"
  obtains item p where "entry = (item, PFloat (Fin p))" "0 \<le> p" "rnd p = Fin p" "valid_probs rest"
proof -
  obtain item prob where e: "entry = (item, prob)" by (cases entry)
  with assms show thesis
    by (cases prob) (auto simp add: valid_probs_def intro: that split: double.splits)
qed

lemma prob_total_nonneg: "valid_probs item_prob_dist \<Longrightarrow> 0 \<le> prob_total item_prob_dist"
proof (induction item_prob_dist)
  case Nil
  then show ?case by (simp add: prob_total_def)
next
  case (Cons entry rest)
  from Cons.prems obtain item p where
    "entry = (item, PFloat (Fin p))" "0 \<le> p" "valid_probs rest" by (rule valid_probs_ConsE)
  then show ?case using Cons.IH by (simp add: prob_total_Cons)
qed

text \<open>
  A draw at least the total of the probabilities, with room for the rounding of each
  subtraction, lets every test fail.
\<close>

lemma sampler_exhausts:
  assumes "valid_probs item_prob_dist" "x \<le> 1"
    "prob_total item_prob_dist + (of_nat (length item_prob_dist) - 1) / 2 ^ 54 \<le> x"
  shows "select_from_dist (PFloat (Fin x)) item_prob_dist = Inl RuntimeError"
  using assms
proof (induction item_prob_dist arbitrary: x)
  case Nil
  then show ?case by simp
next
  case (Cons entry rest)
  from Cons.prems(1) obtain item p where
    e: "entry = (item, PFloat (Fin p))" and p: "0 \<le> p" and rest: "valid_probs rest"
    by (rule valid_probs_ConsE)
  have t: "0 \<le> prob_total rest" using rest by (rule prob_total_nonneg)
  have bound: "p + prob_total rest + of_nat (length rest) / 2 ^ 54 \<le> x"
    using Cons.prems(3) by (simp add: e prob_total_Cons)
  have "0 \<le> (of_nat (length rest) :: rat) / 2 ^ 54" by simp
  then have px: "p \<le> x" using bound t by linarith
  have "\<bar>x - p\<bar> \<le> 1" using px p Cons.prems(2) by simp
  then have r: "rnd (x - p) = Fin (rnd_val (x - p))" by (rule rnd_small)
  have "rnd_val (x - p) \<le> rnd_val 1"
    using p Cons.prems(2) by (intro rnd_val_mono) simp
  then have le1: "rnd_val (x - p) \<le> 1" by (simp add: rnd_val_one)
  have "x - p - 1 / 2 ^ 54 \<le> rnd_val (x - p)"
    using px p Cons.prems(2) by (intro rnd_val_lower) simp_all
  then have "prob_total rest + (of_nat (length rest) - 1) / 2 ^ 54 \<le> rnd_val (x - p)"
    using bound by (simp add: field_simps)
  from Cons.IH [OF rest le1 this] show ?case
    using px by (simp add: e select_from_dist_floats r del: select_from_dist.simps)
qed

text \<open>
  C4 (as amended). For every distribution of \<open>n\<close> entries whose probabilities are
  non-negative finite doubles with total at most \<open>1 - (n + 1) / 2 ^ 54\<close>, there is a
  draw in \<open>[0, 1)\<close>, the largest double below 1, at which the sampler raises the
  RuntimeError.
\<close>

theorem short_distribution_raises:
  assumes "valid_probs item_prob_dist"
    and "prob_total item_prob_dist + (of_nat (length item_prob_dist) + 1) / 2 ^ 54 \<le> 1"
  shows "unit_draw (Fin (1 - 1 / 2 ^ 53)) \<and>
    select_from_dist (PFloat (Fin (1 - 1 / 2 ^ 53))) item_prob_dist = Inl RuntimeError"
proof -
  have "prob_total item_prob_dist + (of_nat (length item_prob_dist) - 1) / 2 ^ 54 \<le> 1 - 1 / 2 ^ 53"
    using assms(2) by (simp add: field_simps)
  from sampler_exhausts [OF assms(1) _ this]
  have "select_from_dist (PFloat (Fin (1 - 1 / 2 ^ 53))) item_prob_dist = Inl RuntimeError"
    by simp
  moreover have "unit_draw (Fin (1 - 1 / 2 ^ 53))" using rnd_max_unit by simp
  ultimately show ?thesis by simp
qed

theorem short_distribution_raises_witness:
  "valid_probs [(''a'', PFloat (Fin (1 / 2))), (''b'', PFloat (Fin (1 / 4)))] \<and>
   prob_total [(''a'', PFloat (Fin (1 / 2))), (''b'', PFloat (Fin (1 / 4)))]
     + (of_nat (length [(''a'', PFloat (Fin (1 / 2))), (''b'', PFloat (Fin (1 / 4)))]) + 1) / 2 ^ 54 \<le> 1 \<and>
   select_from_dist (PFloat (Fin (1 - 1 / 2 ^ 53)))
     [(''a'', PFloat (Fin (1 / 2))), (''b'', PFloat (Fin (1 / 4)))] = Inl RuntimeError"
proof -
  have q: "rnd (1 / 4) = Fin (1 / 4)" using rnd_dyadic [of 1 "- 2"] by (simp add: pow2_def)
  have 1: "valid_probs [(''a'', PFloat (Fin (1 / 2))), (''b'', PFloat (Fin (1 / 4)))]"
    by (simp add: valid_probs_def rnd_half q)
  have 2: "prob_total [(''a'', PFloat (Fin (1 / 2))), (''b'', PFloat (Fin (1 / 4)))]
     + (of_nat (length [(''a'', PFloat (Fin (1 / 2))), (''b'', PFloat (Fin (1 / 4)))]) + 1) / 2 ^ 54 \<le> 1"
    by (simp add: prob_total_def)
  from short_distribution_raises [OF 1 2] 1 2 show ?thesis by blast
qed

lemma near_one_returns:
  assumes "rnd r = Fin r" "0 \<le> r" "r < 1"
  shows "select_from_dist (PFloat (Fin r))
     [(''a'', PFloat (Fin (70368744177665 / 1267650600228229401496703205376))),
      (''b'', PFloat (Fin (70368744177665 / 1267650600228229401496703205376))),
      (''c'', PFloat (Fin (4503599627370495 / 4503599627370496)))]
     \<in> {Inr ''a'', Inr ''b'', Inr ''c''}"
proof -
  let ?q = "70368744177665 / 1267650600228229401496703205376 :: rat"
  let ?p = "4503599627370495 / 4503599627370496 :: rat"
  let ?x1 = "rnd_val (r - ?q)"
  let ?x2 = "rnd_val (?x1 - ?q)"
  have r: "r \<le> 9007199254740991 / 9007199254740992" using assms by (rule double_less_one)
  have k1: "rnd_val (9007199254740991 / 9007199254740992 - ?q) = ?p"
    by (subst rnd_val_normal [where e = "- 1"]) (simp_all add: fl_eval)
  have k2: "rnd_val (?p - ?q) = 9007199254740989 / 9007199254740992"
    by (subst rnd_val_normal [where e = "- 1"]) (simp_all add: fl_eval)
  have x1: "?x1 \<le> ?p"
    using rnd_val_mono [of "r - ?q" "9007199254740991 / 9007199254740992 - ?q"] r
    unfolding k1 by simp
  have x2: "?x2 \<le> 9007199254740989 / 9007199254740992"
    using rnd_val_mono [of "?x1 - ?q" "?p - ?q"] x1
    unfolding k2 by simp
  have s1: "rnd (r - ?q) = Fin ?x1" using assms by (intro rnd_small) simp
  have s2: "\<not> ?x1 < ?q \<Longrightarrow> rnd (?x1 - ?q) = Fin ?x2" using x1 by (intro rnd_small) simp
  have l2: "?x2 < ?p" using x2 by simp
  show ?thesis
    using s1 s2 l2
    by (simp add: select_from_dist_floats del: select_from_dist.simps)
qed

text \<open>
  C4 (counterexample to the claim as stated). The probabilities
  \<open>2 powi -54 + 2 powi -100\<close>, the same again and \<open>1 - 2 powi -52\<close> are non-negative
  doubles whose total is below 1, exactly and as accumulated in floats; yet no draw in
  \<open>[0, 1)\<close> makes the sampler raise: each subtraction rounds down by more than it
  subtracts.
\<close>

theorem short_distribution_never_raises:
  "valid_probs
     [(''a'', PFloat (Fin (70368744177665 / 1267650600228229401496703205376))),
      (''b'', PFloat (Fin (70368744177665 / 1267650600228229401496703205376))),
      (''c'', PFloat (Fin (4503599627370495 / 4503599627370496)))] \<and>
   prob_total
     [(''a'', PFloat (Fin (70368744177665 / 1267650600228229401496703205376))),
      (''b'', PFloat (Fin (70368744177665 / 1267650600228229401496703205376))),
      (''c'', PFloat (Fin (4503599627370495 / 4503599627370496)))] < 1 \<and>
   float_total
     [(''a'', PFloat (Fin (70368744177665 / 1267650600228229401496703205376))),
      (''b'', PFloat (Fin (70368744177665 / 1267650600228229401496703205376))),
      (''c'', PFloat (Fin (4503599627370495 / 4503599627370496)))]
     = Fin (9007199254740991 / 9007199254740992) \<and>
   \<not> (\<exists>r. unit_draw r \<and>
      select_from_dist (PFloat r)
        [(''a'', PFloat (Fin (70368744177665 / 1267650600228229401496703205376))),
         (''b'', PFloat (Fin (70368744177665 / 1267650600228229401496703205376))),
         (''c'', PFloat (Fin (4503599627370495 / 4503599627370496)))] = Inl RuntimeError)"
proof -
  let ?q = "70368744177665 / 1267650600228229401496703205376 :: rat"
  let ?p = "4503599627370495 / 4503599627370496 :: rat"
  let ?d = "[(''a'', PFloat (Fin ?q)), (''b'', PFloat (Fin ?q)), (''c'', PFloat (Fin ?p))]"
  have q: "rnd ?q = Fin ?q"
    using rnd_dyadic [of 70368744177665 "- 100"] by (simp add: pow2_def)
  have p: "rnd ?p = Fin ?p"
    using rnd_dyadic [of 4503599627370495 "- 52"] by (simp add: pow2_def)
  have valid: "valid_probs ?d" by (simp add: valid_probs_def q p)
  have total: "prob_total ?d < 1" by (simp add: prob_total_def)
  have a1: "rnd (0 + ?q) = Fin ?q" by (simp add: q)
  have a2: "rnd (?q + ?q) = Fin (70368744177665 / 633825300114114700748351602688)"
    using rnd_dyadic [of 70368744177665 "- 99"] by (simp add: pow2_def)
  have a3: "rnd (70368744177665 / 633825300114114700748351602688 + ?p)
      = Fin (9007199254740991 / 9007199254740992)"
    by (subst rnd_normal [where e = "- 1"]) (simp_all add: fl_eval)
  have ftotal: "float_total ?d = Fin (9007199254740991 / 9007199254740992)"
    by (simp only: float_total_def list.map prod.case exact.simps foldl.simps fadd.simps a1 a2 a3)
  have never: "\<not> (\<exists>r. unit_draw r \<and> select_from_dist (PFloat r) ?d = Inl RuntimeError)"
  proof
    assume "\<exists>r. unit_draw r \<and> select_from_dist (PFloat r) ?d = Inl RuntimeError"
    then obtain r where u: "unit_draw r"
      and e: "select_from_dist (PFloat r) ?d = Inl RuntimeError" by blast
    from u obtain x where x: "r = Fin x" "rnd x = Fin x" "0 \<le> x" "x < 1"
      by (cases r) simp_all
    from near_one_returns [OF x(2-4)] e x(1) show False by auto
  qed
  from valid total ftotal never show ?thesis by blast
qed

section \<open>The total spent\<close>

lemma fexp_lower: "- 1022 \<le> fexp x"
  by (simp add: fexp_def)

lemma rnd_val_idem: "rnd_val (rnd_val x) = rnd_val x"
proof (cases "x = 0")
  case True
  then show ?thesis by (simp add: rnd_val_def)
next
  case False
  let ?q = "pow2 (fexp x - 52)"
  let ?M = "round_half_even (x / quantum x)"
  have rv: "rnd_val x = of_int ?M * ?q" using False by (simp add: rnd_val_def quantum_def)
  have "\<bar>of_int ?M * ?q\<bar> \<le> pow2 (fexp x + 1)"
    using abs_rnd_val_le [OF False] by (simp only: rv)
  also have "\<dots> = of_int (2 ^ 53) * ?q" by (simp only: pow2_53_mult)
  finally have "\<bar>of_int ?M :: rat\<bar> * ?q \<le> of_int (2 ^ 53) * ?q"
    using pow2_pos [of "fexp x - 52"] by (simp add: abs_mult)
  then have "\<bar>of_int ?M :: rat\<bar> \<le> of_int (2 ^ 53)"
    using pow2_pos [of "fexp x - 52"] by (rule mult_right_le_imp_le)
  then have "(of_int \<bar>?M\<bar> :: rat) \<le> of_int (2 ^ 53)" by simp
  then have M: "\<bar>?M\<bar> \<le> 2 ^ 53" by (simp only: of_int_le_iff)
  have k: "- 1074 \<le> fexp x - 52" using fexp_lower [of x] by simp
  consider "\<bar>?M\<bar> < 2 ^ 53" | "?M = 2 ^ 53" | "?M = - (2 ^ 53)" using M by linarith
  then show ?thesis
  proof cases
    case 1
    from rnd_val_dyadic [OF 1 k] show ?thesis by (simp only: rv)
  next
    case 2
    have "rnd_val x = of_int 1 * pow2 (fexp x + 1)"
      by (simp only: rv 2 pow2_53_mult mult_1 of_int_1)
    moreover have "rnd_val (of_int 1 * pow2 (fexp x + 1)) = of_int 1 * pow2 (fexp x + 1)"
      using fexp_lower [of x] by (intro rnd_val_dyadic) simp_all
    ultimately show ?thesis by simp
  next
    case 3
    have "rnd_val x = of_int (- 1) * pow2 (fexp x + 1)"
      by (simp only: rv 3 pow2_53_mult minus_mult_left [symmetric] of_int_minus of_int_1 mult_1)
    moreover have "rnd_val (of_int (- 1) * pow2 (fexp x + 1)) = of_int (- 1) * pow2 (fexp x + 1)"
      using fexp_lower [of x] by (intro rnd_val_dyadic) simp_all
    ultimately show ?thesis by simp
  qed
qed

lemma rnd_cases: "rnd x = PosInf \<or> rnd x = NegInf \<or> rnd x = Fin (rnd_val x)"
  by (simp add: rnd_def Let_def)

lemma rnd_Fin_iff: "rnd x = Fin y \<longleftrightarrow> y = rnd_val x \<and> \<bar>rnd_val x\<bar> < pow2 1024"
  using pow2_pos [of 1024] by (auto simp add: rnd_def Let_def)

lemma rnd_idem: "rnd x = Fin y \<Longrightarrow> rnd y = Fin y"
  by (simp add: rnd_Fin_iff rnd_val_idem)

lemma rnd_nonneg:
  assumes "0 \<le> x"
  shows "rnd x = PosInf \<or> (\<exists>y. rnd x = Fin y \<and> 0 \<le> y \<and> rnd y = Fin y)"
proof -
  have "0 \<le> rnd_val x" using assms by (rule rnd_val_nonneg)
  then have "rnd x \<noteq> NegInf" using pow2_pos [of 1024] by (simp add: rnd_def Let_def)
  then show ?thesis using rnd_cases [of x] \<open>0 \<le> rnd_val x\<close> rnd_idem [of x] by auto
qed

lemma rnd_ge:
  assumes "rnd a = Fin a" "a \<le> z"
  shows "rnd z = PosInf \<or> (\<exists>w. rnd z = Fin w \<and> a \<le> w \<and> rnd w = Fin w)"
proof -
  note both = rnd_Fin_iff [THEN iffD1, OF assms(1)]
  from both have a1: "rnd_val a = a" by simp
  from both have a2: "\<bar>a\<bar> < pow2 1024" by (simp only: a1)
  have le: "a \<le> rnd_val z" using rnd_val_mono [OF assms(2)] a1 by simp
  have "- pow2 1024 < rnd_val z" using le a2 by linarith
  then have "rnd z \<noteq> NegInf" by (simp add: rnd_def Let_def)
  then show ?thesis using rnd_cases [of z] le rnd_idem [of z] by auto
qed

lemma select_action_total:
  "total_spent (snd (select_action pct ag)) = total_spent ag \<or>
   (\<exists>cp tobuy cost. pct ''price'' = Some cp \<and> 0 \<le> tobuy \<and> tobuy \<le> 15 \<and>
      py_mul (PInt tobuy) cp = Inr cost \<and>
      py_add (total_spent ag) cost = Inr (total_spent (snd (select_action pct ag))))"
proof (cases "pct ''price''")
  case None
  then show ?thesis by (simp add: select_action_def)
next
  case cp: (Some cp)
  show ?thesis
  proof (cases "pct ''stock''")
    case None
    then show ?thesis using cp by (simp add: select_action_def)
  next
    case cs: (Some cs)
    show ?thesis
    proof (cases "py_sub cp (average_price ag)")
      case (Inl e)
      then show ?thesis using cp cs by (simp add: select_action_def)
    next
      case d: (Inr d)
      show ?thesis
      proof (cases "py_mul d (PFloat (float_lit (1 / 10)))")
        case (Inl e)
        then show ?thesis using cp cs d by (simp add: select_action_def)
      next
        case st: (Inr st)
        show ?thesis
        proof (cases "py_add (average_price ag) st")
          case (Inl e)
          then show ?thesis using cp cs d st by (simp add: select_action_def)
        next
          case avg: (Inr avg)
          show ?thesis
          proof (cases "py_mul (PFloat (float_lit (8 / 10))) avg")
            case (Inl e)
            then show ?thesis using cp cs d st avg by (simp add: select_action_def)
          next
            case th: (Inr threshold)
            define tobuy :: int where
              "tobuy = (if py_lt cp threshold \<and> py_gt cs (PInt 10) then 15
                        else if py_lt cs (PInt 10) then 10 else 0)"
            have range: "0 \<le> tobuy" "tobuy \<le> 15" by (simp_all add: tobuy_def)
            show ?thesis
            proof (cases "py_mul (PInt tobuy) cp")
              case (Inl e)
              then show ?thesis using cp cs d st avg th
                by (simp add: select_action_def tobuy_def Let_def)
            next
              case cost: (Inr cost)
              show ?thesis
              proof (cases "py_add (total_spent ag) cost")
                case (Inl e)
                then show ?thesis using cp cs d st avg th cost
                  by (simp add: select_action_def tobuy_def Let_def)
              next
                case spent: (Inr spent)
                from select_action_returns [OF cp cs d st avg th tobuy_def cost spent]
                have "total_spent (snd (select_action pct ag)) = spent" by simp
                then show ?thesis using cp range cost spent by auto
              qed
            qed
          qed
        qed
      qed
    qed
  qed
qed

lemma spent_inv_py_ge: "spent_inv b t \<Longrightarrow> py_ge t t"
  by (cases "(b, t)" rule: spent_inv.cases) (simp_all add: py_ge_def py_lt_def)

lemma spent_inv_weaken: "spent_inv (c + b) t \<Longrightarrow> 0 \<le> c \<Longrightarrow> spent_inv b t"
  by (cases "(b, t)" rule: spent_inv.cases) simp_all

lemma cost_cases:
  assumes "py_mul (PInt k) cp = Inr cost" "0 \<le> k" "k \<le> 15" "exact cp = Fin p" "0 \<le> p"
  shows "(\<exists>n. cp = PInt n \<and> 0 \<le> n \<and> cost = PInt (k * n)) \<or> cost = PFloat PosInf \<or>
         (\<exists>y. cost = PFloat (Fin y) \<and> 0 \<le> y \<and> rnd y = Fin y)"
proof (cases cp)
  case (PInt n)
  then show ?thesis using assms by auto
next
  case (PFloat d)
  have k: "to_float k = Inr (Fin (of_int k))" using assms(2,3) by (intro to_float_small) simp
  have "cost = PFloat (rnd (of_int k * p))"
    using assms(1,4) PFloat k by (simp add: float_op_def)
  moreover have "0 \<le> of_int k * p" using assms(2,5) by simp
  ultimately show ?thesis using rnd_nonneg [of "of_int k * p"] by auto
qed

lemma to_float_nonneg:
  assumes "to_float c = Inr d" "0 \<le> c"
  shows "\<exists>y. d = Fin y \<and> 0 \<le> y \<and> rnd y = Fin y"
proof -
  have "0 \<le> (of_int c :: rat)" using assms(2) by simp
  from rnd_nonneg [OF this] assms(1) show ?thesis
    by (auto simp add: to_float_def)
qed

lemma fadd_ge:
  assumes "rnd x = Fin x" "0 \<le> y"
  shows "fadd (Fin x) (Fin y) = PosInf \<or>
    (\<exists>w. fadd (Fin x) (Fin y) = Fin w \<and> x \<le> w \<and> rnd w = Fin w)"
  using rnd_ge [OF assms(1), of "x + y"] assms(2) by simp

lemma spent_step:
  assumes inv: "spent_inv (15 * m + b) t" and m: "0 \<le> m" and b: "0 \<le> b"
    and cost: "(\<exists>n. cost = PInt n \<and> 0 \<le> n \<and> n \<le> 15 * m) \<or> cost = PFloat PosInf \<or>
         (\<exists>y. cost = PFloat (Fin y) \<and> 0 \<le> y \<and> rnd y = Fin y)"
    and add: "py_add t cost = Inr t'"
  shows "py_ge t' t \<and> spent_inv b t'"
proof -
  consider (int) n where "t = PInt n" "0 \<le> n" "n + (15 * m + b) < 2 ^ 53"
    | (fin) x where "t = PFloat (Fin x)" "0 \<le> x" "rnd x = Fin x"
    | (inf) "t = PFloat PosInf"
    using inv by (cases "(15 * m + b, t)" rule: spent_inv.cases) simp_all
  then show ?thesis
  proof cases
    case int
    have small: "\<bar>n\<bar> < 2 ^ 53" using int(2,3) m b by simp
    have tf: "to_float n = Inr (Fin (of_int n))" using small by (rule to_float_small)
    have rn: "rnd (of_int n) = Fin (of_int n)" using small by (rule rnd_of_int)
    from cost show ?thesis
    proof (elim disjE exE conjE)
      fix c assume "cost = PInt c" "0 \<le> c" "c \<le> 15 * m"
      then show ?thesis using add int b by (auto simp add: py_ge_def py_lt_def)
    next
      assume "cost = PFloat PosInf"
      then show ?thesis using add int tf by (auto simp add: float_op_def py_ge_def py_lt_def)
    next
      fix y assume y: "cost = PFloat (Fin y)" "0 \<le> y" "rnd y = Fin y"
      have "t' = PFloat (fadd (Fin (of_int n)) (Fin y))"
        using add int(1) y(1) tf by (simp add: float_op_def)
      then show ?thesis using fadd_ge [OF rn y(2)] int(1,2)
        by (auto simp add: py_ge_def py_lt_def)
    qed
  next
    case fin
    from cost show ?thesis
    proof (elim disjE exE conjE)
      fix c assume c: "cost = PInt c" "0 \<le> c" "c \<le> 15 * m"
      from add fin(1) c(1) obtain d where d: "to_float c = Inr d" "t' = PFloat (fadd (Fin x) d)"
        by (auto simp add: float_op_def split: sum.splits)
      from to_float_nonneg [OF d(1) c(2)] obtain y where y: "d = Fin y" "0 \<le> y" by blast
      show ?thesis using fadd_ge [OF fin(3) y(2)] d(2) y(1) fin(1,2)
        by (auto simp add: py_ge_def py_lt_def)
    next
      assume "cost = PFloat PosInf"
      then show ?thesis using add fin by (auto simp add: float_op_def py_ge_def py_lt_def)
    next
      fix y assume y: "cost = PFloat (Fin y)" "0 \<le> y" "rnd y = Fin y"
      have "t' = PFloat (fadd (Fin x) (Fin y))"
        using add fin(1) y(1) by (simp add: float_op_def)
      then show ?thesis using fadd_ge [OF fin(3) y(2)] fin(1,2)
        by (auto simp add: py_ge_def py_lt_def)
    qed
  next
    case inf
    from cost show ?thesis
    proof (elim disjE exE conjE)
      fix c assume c: "cost = PInt c" "0 \<le> c" "c \<le> 15 * m"
      from add inf c(1) obtain d where d: "to_float c = Inr d" "t' = PFloat (fadd PosInf d)"
        by (auto simp add: float_op_def split: sum.splits)
      from to_float_nonneg [OF d(1) c(2)] obtain y where y: "d = Fin y" by blast
      show ?thesis using d(2) y inf by (simp add: py_ge_def py_lt_def)
    next
      assume "cost = PFloat PosInf"
      then show ?thesis using add inf by (auto simp add: float_op_def py_ge_def py_lt_def)
    next
      fix y assume "cost = PFloat (Fin y)" "0 \<le> y" "rnd y = Fin y"
      then show ?thesis using add inf by (auto simp add: float_op_def py_ge_def py_lt_def)
    qed
  qed
qed

lemma price_okD:
  assumes "price_ok pct"
  shows "\<exists>cp p. pct ''price'' = Some cp \<and> exact cp = Fin p \<and> 0 \<le> p \<and> 0 \<le> int_price pct \<and>
    (\<forall>n. cp = PInt n \<longrightarrow> int_price pct = n)"
proof -
  from assms obtain cp where cp: "pct ''price'' = Some cp"
    by (auto simp add: price_ok_def split: option.splits)
  with assms obtain p where p: "exact cp = Fin p" "0 \<le> p"
    by (auto simp add: price_ok_def split: double.splits)
  have "0 \<le> int_price pct" using cp p by (cases cp) (auto simp add: int_price_def)
  moreover have "\<forall>n. cp = PInt n \<longrightarrow> int_price pct = n" using cp by (simp add: int_price_def)
  ultimately show ?thesis using cp p by blast
qed

lemma select_action_spent:
  assumes "price_ok pct" "spent_inv (15 * int_price pct + b) (total_spent ag)" "0 \<le> b"
  shows "py_ge (total_spent (snd (select_action pct ag))) (total_spent ag) \<and>
         spent_inv b (total_spent (snd (select_action pct ag)))"
proof -
  from price_okD [OF assms(1)] obtain cp p where
    cp: "pct ''price'' = Some cp" "exact cp = Fin p" "0 \<le> p"
    and m: "0 \<le> int_price pct" and pi: "\<forall>n. cp = PInt n \<longrightarrow> int_price pct = n"
    by blast
  from select_action_total [of pct ag] show ?thesis
  proof (elim disjE exE conjE)
    assume same: "total_spent (snd (select_action pct ag)) = total_spent ag"
    have "0 \<le> 15 * int_price pct" using m by simp
    from spent_inv_weaken [OF assms(2) this] spent_inv_py_ge [OF assms(2)]
    show ?thesis by (simp add: same)
  next
    fix cp' tobuy cost
    assume a: "pct ''price'' = Some cp'" "0 \<le> tobuy" "tobuy \<le> 15"
      "py_mul (PInt tobuy) cp' = Inr cost"
      "py_add (total_spent ag) cost = Inr (total_spent (snd (select_action pct ag)))"
    have eq: "cp' = cp" using a(1) cp(1) by simp
    from cost_cases [OF a(4) [unfolded eq] a(2,3) cp(2,3)]
    have "(\<exists>n. cost = PInt n \<and> 0 \<le> n \<and> n \<le> 15 * int_price pct) \<or> cost = PFloat PosInf \<or>
         (\<exists>y. cost = PFloat (Fin y) \<and> 0 \<le> y \<and> rnd y = Fin y)"
      using pi a(2,3) by (auto simp add: mult_mono)
    from spent_step [OF assms(2) m assms(3) this a(5)] show ?thesis .
  qed
qed

lemma totals_head: "\<exists>rest. totals percepts ag = total_spent ag # rest"
  by (cases percepts) simp_all

lemma int_prices_nonneg: "list_all price_ok percepts \<Longrightarrow> 0 \<le> sum_list (map int_price percepts)"
  by (induction percepts) (auto dest: price_okD)

lemma totals_nondecreasing:
  assumes "list_all price_ok percepts"
    "spent_inv (15 * sum_list (map int_price percepts)) (total_spent ag)"
  shows "nondecreasing (totals percepts ag)"
  using assms
proof (induction percepts arbitrary: ag)
  case Nil
  then show ?case by simp
next
  case (Cons pct rest)
  let ?ag = "snd (select_action pct ag)"
  have ok: "price_ok pct" "list_all price_ok rest" using Cons.prems(1) by simp_all
  have b: "0 \<le> 15 * sum_list (map int_price rest)" using int_prices_nonneg [OF ok(2)] by simp
  have "spent_inv (15 * int_price pct + 15 * sum_list (map int_price rest)) (total_spent ag)"
    using Cons.prems(2) by (simp add: algebra_simps)
  from select_action_spent [OF ok(1) this b]
  have step: "py_ge (total_spent ?ag) (total_spent ag)"
    and inv: "spent_inv (15 * sum_list (map int_price rest)) (total_spent ?ag)" by simp_all
  obtain r where r: "totals rest ?ag = total_spent ?ag # r" using totals_head by blast
  from Cons.IH [OF ok(2) inv] step show ?case by (simp add: r)
qed

text \<open>
  C5 (as amended). For every sequence of \<open>select_action\<close> calls on a fresh agent in
  which every percept carries a finite non-negative price (its int prices small enough
  that an int total is exactly a float: 15 times their sum below \<open>2 ^ 53\<close>),
  \<open>total_spent\<close> after each call is \<open>>=\<close> its value before the call, whether the
  call returns or raises.
\<close>

theorem total_spent_nondecreasing:
  assumes "list_all price_ok percepts" "15 * sum_list (map int_price percepts) < 2 ^ 53"
  shows "nondecreasing (totals percepts SmartphoneAgent_init)"
proof -
  have "spent_inv (15 * sum_list (map int_price percepts)) (total_spent SmartphoneAgent_init)"
    using assms(2) by (simp add: SmartphoneAgent_init_def)
  with assms(1) show ?thesis by (rule totals_nondecreasing)
qed

theorem total_spent_nondecreasing_witness:
  "list_all price_ok [[''price'' \<mapsto> PInt 600, ''stock'' \<mapsto> PInt 50],
                      [''price'' \<mapsto> PFloat (Fin 580), ''stock'' \<mapsto> PInt 5]] \<and>
   15 * sum_list (map int_price [[''price'' \<mapsto> PInt 600, ''stock'' \<mapsto> PInt 50],
                      [''price'' \<mapsto> PFloat (Fin 580), ''stock'' \<mapsto> PInt 5]]) < 2 ^ 53 \<and>
   nondecreasing (totals [[''price'' \<mapsto> PInt 600, ''stock'' \<mapsto> PInt 50],
                      [''price'' \<mapsto> PFloat (Fin 580), ''stock'' \<mapsto> PInt 5]] SmartphoneAgent_init)"
proof -
  have 1: "list_all price_ok [[''price'' \<mapsto> PInt 600, ''stock'' \<mapsto> PInt 50],
                      [''price'' \<mapsto> PFloat (Fin 580), ''stock'' \<mapsto> PInt 5]]"
    by (simp add: price_ok_def)
  have 2: "15 * sum_list (map int_price [[''price'' \<mapsto> PInt 600, ''stock'' \<mapsto> PInt 50],
                      [''price'' \<mapsto> PFloat (Fin 580), ''stock'' \<mapsto> PInt 5]]) < 2 ^ 53"
    by (simp add: int_price_def)
  from total_spent_nondecreasing [OF 1 2] 1 2 show ?thesis by blast
qed

lemma fmul_m700: "fmul (Fin (- 700)) (float_lit (1 / 10)) = Fin (- 70)"
  unfolding lit_1_10 fmul.simps
  by (subst rnd_normal [where e = 6]) (simp_all add: fl_eval)

lemma fmul_530: "fmul (float_lit (8 / 10)) (Fin 530) = Fin 424"
  unfolding lit_8_10 fmul.simps
  by (subst rnd_normal [where e = 8]) (simp_all add: fl_eval)

text \<open>
  C5 (counterexample to the claim as stated). A fresh agent that observes the percept
  \<open>{price: -100.0, stock: 5}\<close> orders 10 units and its \<open>total_spent\<close> goes from 0
  to \<open>-1000.0\<close>.
\<close>

theorem total_spent_decreases:
  "total_spent (snd (select_action [''price'' \<mapsto> PFloat (Fin (- 100)), ''stock'' \<mapsto> PInt 5]
     SmartphoneAgent_init)) = PFloat (Fin (- 1000)) \<and>
   total_spent SmartphoneAgent_init = PInt 0 \<and>
   \<not> py_ge (total_spent (snd (select_action
      [''price'' \<mapsto> PFloat (Fin (- 100)), ''stock'' \<mapsto> PInt 5] SmartphoneAgent_init)))
     (total_spent SmartphoneAgent_init) \<and>
   \<not> nondecreasing (totals [[''price'' \<mapsto> PFloat (Fin (- 100)), ''stock'' \<mapsto> PInt 5]]
     SmartphoneAgent_init)"
proof -
  let ?pct = "[''price'' \<mapsto> PFloat (Fin (- 100)), ''stock'' \<mapsto> PInt 5]"
  let ?ag = SmartphoneAgent_init
  have cp: "?pct ''price'' = Some (PFloat (Fin (- 100)))" by simp
  have cs: "?pct ''stock'' = Some (PInt 5)" by simp
  have d: "py_sub (PFloat (Fin (- 100))) (average_price ?ag) = Inr (PFloat (Fin (- 700)))"
    by (simp add: SmartphoneAgent_init_def float_op_def to_float_small fsub_def rnd_neg_numeral)
  have st: "py_mul (PFloat (Fin (- 700))) (PFloat (float_lit (1 / 10))) = Inr (PFloat (Fin (- 70)))"
    by (simp only: py_mul_float_left as_float.simps fmul_m700)
  have avg: "py_add (average_price ?ag) (PFloat (Fin (- 70))) = Inr (PFloat (Fin 530))"
    by (simp add: SmartphoneAgent_init_def float_op_def to_float_small rnd_numeral)
  have th: "py_mul (PFloat (float_lit (8 / 10))) (PFloat (Fin 530)) = Inr (PFloat (Fin 424))"
    by (simp only: py_mul_float_left as_float.simps fmul_530)
  have tb: "(10::int) = (if py_lt (PFloat (Fin (- 100))) (PFloat (Fin 424)) \<and> py_gt (PInt 5) (PInt 10)
      then 15 else if py_lt (PInt 5) (PInt 10) then 10 else 0)"
    by (simp add: py_lt_def py_gt_def)
  have cost: "py_mul (PInt 10) (PFloat (Fin (- 100))) = Inr (PFloat (Fin (- 1000)))"
    by (simp add: float_op_def to_float_small rnd_neg_numeral)
  have spent: "py_add (total_spent ?ag) (PFloat (Fin (- 1000))) = Inr (PFloat (Fin (- 1000)))"
    by (simp add: SmartphoneAgent_init_def float_op_def to_float_small rnd_neg_numeral)
  note r = select_action_returns [OF cp cs d st avg th tb cost spent]
  have t: "total_spent (snd (select_action ?pct ?ag)) = PFloat (Fin (- 1000))"
    unfolding r by simp
  have z: "total_spent ?ag = PInt 0" by (simp add: SmartphoneAgent_init_def)
  have "\<not> py_ge (PFloat (Fin (- 1000))) (PInt 0)" by (simp add: py_ge_def py_lt_def)
  then show ?thesis by (simp add: t z)
qed

section \<open>The driver run for no step\<close>

text \<open>
  C9. Running the driver for 0 steps on a freshly constructed agent and environment
  performs no iteration and raises nothing: afterwards the agent's \<open>buy_history\<close> is
  empty, the environment's \<open>price_history\<close> is \<open>[600]\<close> and its \<open>stock_history\<close> is
  \<open>[50]\<close>.
\<close>

theorem run_zero_steps:
  "run rng 0 (Simulation_init SmartphoneAgent_init SmartphoneEnvironment_init) =
     (None, Simulation_init SmartphoneAgent_init SmartphoneEnvironment_init) \<and>
   buy_history (agent (snd (run rng 0
     (Simulation_init SmartphoneAgent_init SmartphoneEnvironment_init)))) = [] \<and>
   price_history (environment (snd (run rng 0
     (Simulation_init SmartphoneAgent_init SmartphoneEnvironment_init)))) = [PInt 600] \<and>
   stock_history (environment (snd (run rng 0
     (Simulation_init SmartphoneAgent_init SmartphoneEnvironment_init)))) = [PInt 50]"
  by (simp add: run_def Simulation_init_def SmartphoneAgent_init_def
      SmartphoneEnvironment_init_def)

end
